theory Spec2Isabelle
  imports Main "HOL-Library.Word" "HOL-Library.AList"
begin

section \<open>The dens registry: data model\<close>

text \<open>
  A shallow embedding of \<^verbatim>\<open>include/dens/registry.hpp\<close> and \<^verbatim>\<open>include/dens/entity.hpp\<close>.
  The header \<^verbatim>\<open>dens/detail/archetype.hpp\<close> (sign_t, archetype, archetype_map) is not among
  the sources; the operations of it that the registry calls are modelled from the
  specification and marked as such. The asserts of the source are modelled as checked
  (a debug build): a failing assert is the result \<open>Inl AssertionFailed\<close>.
\<close>

datatype error = AssertionFailed | OutOfRange | Undefined

definition bind_res :: "error + 'a \<Rightarrow> ('a \<Rightarrow> error + 'b) \<Rightarrow> error + 'b" where
  "bind_res r f = (case r of Inl x \<Rightarrow> Inl x | Inr y \<Rightarrow> f y)"

text \<open>\<^verbatim>\<open>detail::sign_t\<close>: the token of a component type. Component values of every type
  live in one universe \<open>'v\<close>; a column for sign \<open>g\<close> holds the values of the type \<open>g\<close> names.\<close>

type_synonym sign_t = nat

text \<open>\<^verbatim>\<open>struct entity { std::size_t id{}; std::size_t registry_id{}; }\<close>\<close>

record entity =
  eid :: "64 word"
  registry_id :: "64 word"

definition null_id :: "64 word" where
  "null_id = 0"

text \<open>\<^verbatim>\<open>registry::record\<close>. The pointer \<^verbatim>\<open>arch\<close> is the key of the archetype in the map
  (\<^verbatim>\<open>std::unordered_map\<close> never moves its nodes), \<open>None\<close> for \<^verbatim>\<open>nullptr\<close>.\<close>

record reg_record =
  name :: string
  arch :: "sign_t list option"
  index :: nat

definition record_default :: reg_record where
  "record_default = \<lparr>name = [], arch = None, index = 0\<rparr>"

text \<open>Modelled from the spec: the archetype of \<^verbatim>\<open>dens/detail/archetype.hpp\<close>, absent from the
  sources. Section 3: an archetype is its id (the ordered signatures), one entity per row,
  and one column per signature of the id.\<close>

record 'v archetype =
  types :: "sign_t list"
  m_entities :: "entity list"
  m_arrays :: "sign_t \<Rightarrow> 'v list option"

record 'v registry =
  m_map :: "(sign_t list \<times> 'v archetype) list"
  m_records :: "entity \<Rightarrow> reg_record option"
  m_next_id :: "64 word"
  m_id :: "64 word"

section \<open>Archetype ids, archetypes and the archetype map\<close>

text \<open>Modelled from the spec: ArchetypeId of section 3, absent from the sources: the
  signatures sorted by value; insert is a no-op when present, remove when absent.\<close>

definition make_id :: "sign_t list \<Rightarrow> sign_t list" where
  "make_id sigs = sort (remdups sigs)"

definition id_insert :: "sign_t \<Rightarrow> sign_t list \<Rightarrow> sign_t list" where
  "id_insert g ts = (if g \<in> set ts then ts else insort g ts)"

definition id_remove :: "sign_t \<Rightarrow> sign_t list \<Rightarrow> sign_t list" where
  "id_remove g ts = removeAll g ts"

text \<open>Modelled from the spec: \<^verbatim>\<open>has_all\<close>, \<^verbatim>\<open>has_any\<close> of section 3 (subset and
  intersection tests), absent from the sources.\<close>

definition has_all :: "'v archetype \<Rightarrow> sign_t list \<Rightarrow> bool" where
  "has_all a sigs = list_all (\<lambda>g. g \<in> set (types a)) sigs"

definition has_any :: "'v archetype \<Rightarrow> sign_t list \<Rightarrow> bool" where
  "has_any a sigs = list_ex (\<lambda>g. g \<in> set (types a)) sigs"

text \<open>Modelled from the spec: section 4.4, \<^verbatim>\<open>get_or_make\<close> creates "an empty one with the
  appropriate columns"; absent from the sources.\<close>

definition new_archetype :: "sign_t list \<Rightarrow> 'v archetype" where
  "new_archetype ts =
     \<lparr>types = ts, m_entities = [], m_arrays = (\<lambda>g. if g \<in> set ts then Some [] else None)\<rparr>"

text \<open>Modelled from the spec: \<^verbatim>\<open>size\<close>, \<^verbatim>\<open>is_last_row\<close>, \<^verbatim>\<open>find_column\<close>, \<^verbatim>\<open>push_entity\<close>
  of section 4.3 (in the source's calls: \<^verbatim>\<open>size\<close>, \<^verbatim>\<open>is_last\<close>, \<^verbatim>\<open>find<T>\<close>,
  \<^verbatim>\<open>push_back\<close>), absent from the sources.\<close>

definition arch_size :: "'v archetype \<Rightarrow> nat" where
  "arch_size a = length (m_entities a)"

definition is_last :: "'v archetype \<Rightarrow> nat \<Rightarrow> bool" where
  "is_last a i = (Suc i = length (m_entities a))"

definition find_array :: "'v archetype \<Rightarrow> sign_t \<Rightarrow> 'v list option" where
  "find_array a g = m_arrays a g"

definition push_back :: "'v archetype \<Rightarrow> entity \<Rightarrow> 'v archetype" where
  "push_back a e = a\<lparr>m_entities := m_entities a @ [e]\<rparr>"

text \<open>Every column of the archetype satisfies \<open>p\<close> (the columns are those of the id).\<close>

definition columns_all :: "'v archetype \<Rightarrow> ('v list \<Rightarrow> bool) \<Rightarrow> bool" where
  "columns_all a p =
     list_all (\<lambda>g. case m_arrays a g of None \<Rightarrow> True | Some c \<Rightarrow> p c) (types a)"

text \<open>Modelled from the spec: \<^verbatim>\<open>emplace_back<T>(value)\<close> (section 4.3, "find column by
  signature, append, return reference"; precondition: T is in the id), absent from the
  sources. The result is the column after the append and the archetype.\<close>

definition emplace_back :: "'v archetype \<Rightarrow> sign_t \<Rightarrow> 'v \<Rightarrow> error + ('v list \<times> 'v archetype)" where
  "emplace_back a g v =
     (case m_arrays a g of
        None \<Rightarrow> Inl Undefined
      | Some c \<Rightarrow> Inr (c @ [v], a\<lparr>m_arrays := (m_arrays a)(g \<mapsto> c @ [v])\<rparr>))"

definition swap_last :: "'a list \<Rightarrow> nat \<Rightarrow> 'a list" where
  "swap_last xs i = xs[i := last xs, length xs - 1 := xs ! i]"

text \<open>Modelled from the spec: \<^verbatim>\<open>swap_back(index)\<close>, the rotation of sections 4.5.3 and
  4.5.5 ("swap with the last row"), absent from the sources: the row is swapped with the
  last row in the entities and in every column, and the entity that now occupies the row
  (the displaced one) is returned. A row out of range is undefined behaviour.\<close>

definition swap_back :: "'v archetype \<Rightarrow> nat \<Rightarrow> error + (entity \<times> 'v archetype)" where
  "swap_back a i =
     (if i < length (m_entities a) \<and> columns_all a (\<lambda>c. i < length c)
      then Inr (swap_last (m_entities a) i ! i,
                a\<lparr>m_entities := swap_last (m_entities a) i,
                  m_arrays := (\<lambda>g. map_option (\<lambda>c. swap_last c i) (m_arrays a g))\<rparr>)
      else Inl Undefined)"

text \<open>Modelled from the spec: \<^verbatim>\<open>pop_back()\<close>, the removal of the last row (section 4.5.3,
  step 2: the single value is dropped), absent from the sources.\<close>

definition pop_back :: "'v archetype \<Rightarrow> error + 'v archetype" where
  "pop_back a =
     (if m_entities a \<noteq> [] \<and> columns_all a (\<lambda>c. c \<noteq> [])
      then Inr (a\<lparr>m_entities := butlast (m_entities a),
                  m_arrays := (\<lambda>g. map_option butlast (m_arrays a g))\<rparr>)
      else Inl Undefined)"

text \<open>Modelled from the spec: \<^verbatim>\<open>migrate_back(other)\<close> (\<^verbatim>\<open>migrate_back_row_to\<close> of section
  4.3), absent from the sources: for each column, the last element moves to the other
  archetype's column of the same signature when there is one and is dropped otherwise; the
  entity is appended to the other's entities; this archetype's last row is popped. The
  result is the migrated entity, this archetype and the other one.\<close>

definition migrate_back ::
  "'v archetype \<Rightarrow> 'v archetype option \<Rightarrow> error + (entity \<times> 'v archetype \<times> 'v archetype option)" where
  "migrate_back a out =
     (if m_entities a \<noteq> [] \<and> columns_all a (\<lambda>c. c \<noteq> [])
      then Inr (last (m_entities a),
                a\<lparr>m_entities := butlast (m_entities a),
                  m_arrays := (\<lambda>g. map_option butlast (m_arrays a g))\<rparr>,
                map_option (\<lambda>b. b\<lparr>m_entities := m_entities b @ [last (m_entities a)],
                     m_arrays := (\<lambda>g. case m_arrays b g of
                                    None \<Rightarrow> None
                                  | Some oc \<Rightarrow> (case m_arrays a g of
                                                 None \<Rightarrow> Some oc
                                               | Some c \<Rightarrow> Some (oc @ [last c])))\<rparr>) out)
      else Inl Undefined)"


text \<open>Modelled from the spec: \<^verbatim>\<open>archetype_map::get_or_make\<close> and \<^verbatim>\<open>copy_append<T>\<close> of
  section 4.4, absent from the sources. The result is the map and the key of the archetype
  (the reference the source returns).\<close>

definition get_or_make ::
  "(sign_t list \<times> 'v archetype) list \<Rightarrow> sign_t list
     \<Rightarrow> (sign_t list \<times> 'v archetype) list \<times> sign_t list" where
  "get_or_make m sigs =
     (let k = make_id sigs
      in (if map_of m k = None then AList.update k (new_archetype k) m else m, k))"

definition copy_append ::
  "(sign_t list \<times> 'v archetype) list \<Rightarrow> 'v archetype \<Rightarrow> sign_t
     \<Rightarrow> (sign_t list \<times> 'v archetype) list \<times> sign_t list" where
  "copy_append m a g =
     (let k = id_insert g (types a)
      in (if map_of m k = None then AList.update k (new_archetype k) m else m, k))"

section \<open>The registry\<close>

text \<open>\<^verbatim>\<open>registry::registry() : m_id(++s_next_id)\<close>; the argument is the value of the
  process-wide counter before the construction.\<close>

definition registry_new :: "64 word \<Rightarrow> 'v registry" where
  "registry_new s_next_id =
     \<lparr>m_map = [], m_records = Map.empty, m_next_id = 0, m_id = s_next_id + 1\<rparr>"

text \<open>\<^verbatim>\<open>s_name_prefix\<close> (its initial value) and \<^verbatim>\<open>make_name\<close>, with \<^verbatim>\<open>std::to_string\<close>.\<close>

definition s_name_prefix :: string where
  "s_name_prefix = ''entity_''"

fun to_string :: "nat \<Rightarrow> string" where
  "to_string n =
     (if n < 10 then [''0123456789'' ! n]
      else to_string (n div 10) @ [''0123456789'' ! (n mod 10)])"

declare to_string.simps [simp del]

definition make_name :: "64 word \<Rightarrow> string" where
  "make_name i = s_name_prefix @ to_string (unat i)"

definition contains :: "'v registry \<Rightarrow> entity \<Rightarrow> bool" where
  "contains s e = (m_records s e \<noteq> None)"

definition size_registry :: "'v registry \<Rightarrow> nat" where
  "size_registry s = card (dom (m_records s))"

definition empty_registry :: "'v registry \<Rightarrow> bool" where
  "empty_registry s = (dom (m_records s) = {})"

definition name_of :: "'v registry \<Rightarrow> entity \<Rightarrow> string" where
  "name_of s e = (case m_records s e of Some r \<Rightarrow> name r | None \<Rightarrow> [])"

definition rename :: "entity \<Rightarrow> string \<Rightarrow> 'v registry \<Rightarrow> bool \<times> 'v registry" where
  "rename e nm s =
     (case m_records s e of
        Some r \<Rightarrow> (True, s\<lparr>m_records := (m_records s)(e \<mapsto> r\<lparr>name := nm\<rparr>)\<rparr>)
      | None \<Rightarrow> (False, s))"

definition clear :: "'v registry \<Rightarrow> 'v registry" where
  "clear s = s\<lparr>m_map := [], m_records := Map.empty\<rparr>"

text \<open>\<^verbatim>\<open>m_records[e]\<close>: \<^verbatim>\<open>operator[]\<close> inserts a default record when there is none.\<close>

definition records_at :: "(entity \<Rightarrow> reg_record option) \<Rightarrow> entity \<Rightarrow> reg_record" where
  "records_at recs e = (case recs e of None \<Rightarrow> record_default | Some r \<Rightarrow> r)"

text \<open>\<^verbatim>\<open>registry::get_or_make(entity)\<close>\<close>

definition get_or_make_record :: "entity \<Rightarrow> 'v registry \<Rightarrow> 'v registry" where
  "get_or_make_record e s =
     (case m_records s e of
        None \<Rightarrow> s\<lparr>m_records := (m_records s)(e \<mapsto> record_default)\<rparr>
      | Some r \<Rightarrow> s)"

text \<open>\<^verbatim>\<open>registry::send_to_back(record& r)\<close>; the record is the one of \<open>e\<close>.\<close>

definition send_to_back :: "entity \<Rightarrow> 'v registry \<Rightarrow> error + 'v registry" where
  "send_to_back e s =
     (case m_records s e of
        None \<Rightarrow> Inl Undefined
      | Some r \<Rightarrow>
         (case arch r of
            None \<Rightarrow> Inl Undefined
          | Some k \<Rightarrow>
             (case map_of (m_map s) k of
                None \<Rightarrow> Inl Undefined
              | Some a \<Rightarrow>
                 if \<not> is_last a (index r)
                 then bind_res (swap_back a (index r)) (\<lambda>(displaced, a').
                        if arch (records_at (m_records s) displaced) \<noteq> arch r
                        then Inl AssertionFailed
                        else Inr (s\<lparr>m_map := AList.update k a' (m_map s),
                                   m_records := (m_records s)(displaced \<mapsto>
                                      (records_at (m_records s) displaced)\<lparr>index := index r\<rparr>)\<rparr>))
                 else Inr s)))"

text \<open>\<^verbatim>\<open>registry::migrate_to(record& out_record, archetype* out_arch)\<close>; the record is the one
  of \<open>e\<close>, the target is the key of an archetype of the map or \<open>None\<close> for \<^verbatim>\<open>nullptr\<close>. Its
  callers pass a target other than the record's archetype.\<close>

definition migrate_to :: "entity \<Rightarrow> sign_t list option \<Rightarrow> 'v registry \<Rightarrow> error + 'v registry" where
  "migrate_to e out s =
     bind_res (send_to_back e s) (\<lambda>s1.
       case m_records s1 e of
         None \<Rightarrow> Inl Undefined
       | Some r \<Rightarrow>
          (case arch r of
             None \<Rightarrow> Inl Undefined
           | Some k \<Rightarrow>
              (case map_of (m_map s1) k of
                 None \<Rightarrow> Inl Undefined
               | Some a \<Rightarrow>
                  if out = Some k \<or> (case out of None \<Rightarrow> False | Some kb \<Rightarrow> map_of (m_map s1) kb = None)
                  then Inl Undefined
                  else bind_res (migrate_back a (case out of None \<Rightarrow> None | Some kb \<Rightarrow> map_of (m_map s1) kb))
                    (\<lambda>(popped, a', ob).
                       if popped \<noteq> e then Inl AssertionFailed
                       else Inr (s1\<lparr>m_map :=
                                     (case (out, ob) of
                                        (Some kb, Some b) \<Rightarrow> AList.update kb b (AList.update k a' (m_map s1))
                                      | _ \<Rightarrow> AList.update k a' (m_map s1)),
                                   m_records := (m_records s1)(e \<mapsto> r\<lparr>arch := out\<rparr>)\<rparr>)))))"

text \<open>\<^verbatim>\<open>registry::emplace_back<T>(record& r, archetype& arch)\<close>; \<open>dflt g\<close> is the
  value-initialised \<^verbatim>\<open>T{}\<close> of the type of sign \<open>g\<close>.\<close>

definition emplace_back_record ::
  "(sign_t \<Rightarrow> 'v) \<Rightarrow> entity \<Rightarrow> sign_t list \<Rightarrow> sign_t \<Rightarrow> 'v registry \<Rightarrow> error + 'v registry" where
  "emplace_back_record dflt e k g s =
     (case map_of (m_map s) k of
        None \<Rightarrow> Inl Undefined
      | Some a \<Rightarrow>
         (case m_arrays a g of
            None \<Rightarrow> Inl Undefined
          | Some vec \<Rightarrow>
             Inr (s\<lparr>m_map := AList.update k (a\<lparr>m_arrays := (m_arrays a)(g \<mapsto> vec @ [dflt g])\<rparr>) (m_map s),
                    m_records := (m_records s)(e \<mapsto>
                       (records_at (m_records s) e)\<lparr>arch := Some k, index := length vec\<rparr>)\<rparr>)))"

fun emplace_back_all ::
  "(sign_t \<Rightarrow> 'v) \<Rightarrow> entity \<Rightarrow> sign_t list \<Rightarrow> sign_t list \<Rightarrow> 'v registry \<Rightarrow> error + 'v registry" where
  "emplace_back_all dflt e k [] s = Inr s"
| "emplace_back_all dflt e k (g # gs) s =
     bind_res (emplace_back_record dflt e k g s) (emplace_back_all dflt e k gs)"

text \<open>\<^verbatim>\<open>registry::make_entity<Types...>(name)\<close>. \<^verbatim>\<open>emplace\<close> leaves an existing record as it is.\<close>

definition make_entity ::
  "(sign_t \<Rightarrow> 'v) \<Rightarrow> sign_t list \<Rightarrow> string \<Rightarrow> 'v registry \<Rightarrow> error + (entity \<times> 'v registry)" where
  "make_entity dflt sigs nm s =
     (let i = m_next_id s + 1;
          nm' = (if nm = [] then make_name i else nm);
          e = \<lparr>eid = i, registry_id = m_id s\<rparr>;
          s1 = s\<lparr>m_next_id := i,
                 m_records := (case m_records s e of
                                 None \<Rightarrow> (m_records s)(e \<mapsto> \<lparr>name = nm', arch = None, index = 0\<rparr>)
                               | Some r \<Rightarrow> m_records s)\<rparr>
      in if sigs = [] then Inr (e, s1)
         else (case get_or_make (m_map s1) sigs of
                 (m1, k) \<Rightarrow>
                   (case map_of m1 k of
                      None \<Rightarrow> Inl Undefined
                    | Some a \<Rightarrow>
                       bind_res (emplace_back_all dflt e k sigs
                                   (s1\<lparr>m_map := AList.update k (push_back a e) m1\<rparr>))
                         (\<lambda>s2. Inr (e, s2)))))"

text \<open>\<^verbatim>\<open>registry::destroy\<close>\<close>

definition destroy :: "entity \<Rightarrow> 'v registry \<Rightarrow> error + (bool \<times> 'v registry)" where
  "destroy e s =
     (case m_records s e of
        None \<Rightarrow> Inr (False, s)
      | Some r \<Rightarrow>
         bind_res (if arch r \<noteq> None then migrate_to e None s else Inr s)
           (\<lambda>s1. Inr (True, s1\<lparr>m_records := (m_records s1)(e := None)\<rparr>)))"

text \<open>\<^verbatim>\<open>registry::attach<T>(entity e, T t)\<close>: the part from \<^verbatim>\<open>assert(rec.arch)\<close> on.\<close>

definition attach_push :: "sign_t \<Rightarrow> entity \<Rightarrow> 'v \<Rightarrow> 'v registry \<Rightarrow> error + ('v \<times> 'v registry)" where
  "attach_push g e t s =
     (case m_records s e of
        None \<Rightarrow> Inl Undefined
      | Some r \<Rightarrow>
         (case arch r of
            None \<Rightarrow> Inl AssertionFailed
          | Some k \<Rightarrow>
             (case map_of (m_map s) k of
                None \<Rightarrow> Inl Undefined
              | Some a \<Rightarrow>
                 bind_res (emplace_back a g t) (\<lambda>(vec, a').
                   if vec = [] then Inl AssertionFailed
                   else if length vec \<noteq> arch_size a' then Inl AssertionFailed
                   else Inr (last vec,
                             s\<lparr>m_map := AList.update k a' (m_map s),
                               m_records := (m_records s)(e \<mapsto> r\<lparr>index := length vec - 1\<rparr>)\<rparr>)))))"

text \<open>\<^verbatim>\<open>registry::attach<T>(entity e, T t)\<close>; the result is the value the returned reference
  points to and the registry.\<close>

definition attach :: "sign_t \<Rightarrow> entity \<Rightarrow> 'v \<Rightarrow> 'v registry \<Rightarrow> error + ('v \<times> 'v registry)" where
  "attach g e t s =
     (if \<not> (null_id < eid e \<and> registry_id e = m_id s) then Inl AssertionFailed
      else
        let s0 = get_or_make_record e s;
            r = records_at (m_records s0) e
        in case arch r of
             Some k \<Rightarrow>
               (case map_of (m_map s0) k of
                  None \<Rightarrow> Inl Undefined
                | Some a \<Rightarrow>
                   (case find_array a g of
                      Some array \<Rightarrow>
                        if index r < length array
                        then Inr (t, s0\<lparr>m_map := AList.update k
                                         (a\<lparr>m_arrays := (m_arrays a)(g \<mapsto> array[index r := t])\<rparr>) (m_map s0)\<rparr>)
                        else Inl OutOfRange
                    | None \<Rightarrow>
                        (case copy_append (m_map s0) a g of
                           (m1, kb) \<Rightarrow>
                             bind_res (migrate_to e (Some kb) (s0\<lparr>m_map := m1\<rparr>)) (attach_push g e t))))
           | None \<Rightarrow>
               (case get_or_make (m_map s0) [g] of
                  (m1, kb) \<Rightarrow>
                    (case map_of m1 kb of
                       None \<Rightarrow> Inl Undefined
                     | Some b \<Rightarrow>
                        attach_push g e t
                          (s0\<lparr>m_map := AList.update kb (push_back b e) m1,
                              m_records := (m_records s0)(e \<mapsto> r\<lparr>arch := Some kb\<rparr>)\<rparr>))))"

text \<open>\<^verbatim>\<open>registry::find<T>\<close>; \<open>Inr None\<close> is the null pointer, \<^verbatim>\<open>at\<close> throws out of range.\<close>

definition find_component :: "sign_t \<Rightarrow> entity \<Rightarrow> 'v registry \<Rightarrow> error + 'v option" where
  "find_component g e s =
     (case m_records s e of
        None \<Rightarrow> Inr None
      | Some r \<Rightarrow>
         (case arch r of
            None \<Rightarrow> Inr None
          | Some k \<Rightarrow>
             (case map_of (m_map s) k of
                None \<Rightarrow> Inl Undefined
              | Some a \<Rightarrow>
                 (case find_array a g of
                    None \<Rightarrow> Inr None
                  | Some array \<Rightarrow>
                      if index r < length array then Inr (Some (array ! index r))
                      else Inl OutOfRange))))"

text \<open>\<^verbatim>\<open>registry::get<T>\<close>\<close>

definition get :: "sign_t \<Rightarrow> entity \<Rightarrow> 'v registry \<Rightarrow> error + 'v" where
  "get g e s =
     (if \<not> (null_id < eid e \<and> registry_id e = m_id s) then Inl AssertionFailed
      else bind_res (find_component g e s) (\<lambda>ret.
             case ret of None \<Rightarrow> Inl AssertionFailed | Some v \<Rightarrow> Inr v))"

text \<open>\<^verbatim>\<open>registry::attached<T>\<close>, \<^verbatim>\<open>all_attached<Types...>\<close>, \<^verbatim>\<open>any_attached<Types...>\<close>\<close>

definition attached :: "sign_t \<Rightarrow> entity \<Rightarrow> 'v registry \<Rightarrow> error + bool" where
  "attached g e s =
     (case m_records s e of
        None \<Rightarrow> Inr False
      | Some r \<Rightarrow>
         (case arch r of
            None \<Rightarrow> Inr False
          | Some k \<Rightarrow>
             (case map_of (m_map s) k of
                None \<Rightarrow> Inl Undefined
              | Some a \<Rightarrow> Inr (find_array a g \<noteq> None))))"

definition all_attached :: "sign_t list \<Rightarrow> entity \<Rightarrow> 'v registry \<Rightarrow> error + bool" where
  "all_attached sigs e s =
     (case m_records s e of
        None \<Rightarrow> Inr False
      | Some r \<Rightarrow>
         (case arch r of
            None \<Rightarrow> Inr False
          | Some k \<Rightarrow>
             (case map_of (m_map s) k of
                None \<Rightarrow> Inl Undefined
              | Some a \<Rightarrow> Inr (has_all a sigs))))"

definition any_attached :: "sign_t list \<Rightarrow> entity \<Rightarrow> 'v registry \<Rightarrow> error + bool" where
  "any_attached sigs e s =
     (case m_records s e of
        None \<Rightarrow> Inr False
      | Some r \<Rightarrow>
         (case arch r of
            None \<Rightarrow> Inr False
          | Some k \<Rightarrow>
             (case map_of (m_map s) k of
                None \<Rightarrow> Inl Undefined
              | Some a \<Rightarrow> Inr (has_any a sigs))))"

text \<open>\<^verbatim>\<open>registry::do_detach<T>\<close>\<close>

definition do_detach :: "sign_t \<Rightarrow> entity \<Rightarrow> 'v registry \<Rightarrow> error + (bool \<times> 'v registry)" where
  "do_detach g e s =
     (if registry_id e \<noteq> m_id s then Inr (False, s)
      else case m_records s e of
        None \<Rightarrow> Inr (False, s)
      | Some r \<Rightarrow>
         (case arch r of
            None \<Rightarrow> Inr (False, s)
          | Some k \<Rightarrow>
             (case map_of (m_map s) k of
                None \<Rightarrow> Inl Undefined
              | Some a \<Rightarrow>
                 bind_res
                   (if \<not> is_last a (index r)
                    then bind_res (swap_back a (index r)) (\<lambda>(swapped, a').
                           Inr (a', (m_records s)(swapped \<mapsto>
                                  (records_at (m_records s) swapped)\<lparr>index := index r\<rparr>)))
                    else Inr (a, m_records s))
                   (\<lambda>(a1, recs1).
                      if length (types a1) = 1
                      then bind_res (pop_back a1) (\<lambda>a2.
                             Inr (True, s\<lparr>m_map := AList.update k a2 (m_map s),
                                          m_records := recs1(e \<mapsto> record_default)\<rparr>))
                      else
                        if id_remove g (types a1) = types a1 then Inl AssertionFailed
                        else (case get_or_make (AList.update k a1 (m_map s)) (id_remove g (types a1)) of
                                (m1, kt) \<Rightarrow>
                                  (case map_of m1 kt of
                                     None \<Rightarrow> Inl Undefined
                                   | Some target \<Rightarrow>
                                      if kt = k then Inl Undefined
                                      else bind_res (migrate_back a1 (Some target)) (\<lambda>(migrated, a2, ob).
                                        if migrated \<noteq> e then Inl AssertionFailed
                                        else (case ob of
                                                None \<Rightarrow> Inl Undefined
                                              | Some target' \<Rightarrow>
                                                 if m_entities target' = [] then Inl AssertionFailed
                                                 else Inr (True,
                                                   s\<lparr>m_map := AList.update kt target' (AList.update k a2 m1),
                                                     m_records := recs1(e \<mapsto>
                                                       (records_at recs1 e)\<lparr>arch := Some kt,
                                                          index := arch_size target' - 1\<rparr>)\<rparr>)))))))))"

text \<open>\<^verbatim>\<open>registry::detach<Types...>\<close>: the fold \<^verbatim>\<open>(do_detach<Types>(e) && ...)\<close>, left to right
  and short-circuiting.\<close>

fun detach :: "sign_t list \<Rightarrow> entity \<Rightarrow> 'v registry \<Rightarrow> error + (bool \<times> 'v registry)" where
  "detach [] e s = Inr (True, s)"
| "detach (g # gs) e s =
     bind_res (do_detach g e s) (\<lambda>(b, s1). if b then detach gs e s1 else Inr (False, s1))"





section \<open>Sequences of public operations\<close>

lemma bind_res_Inr [simp]: "bind_res (Inr y) f = f y"
  by (simp add: bind_res_def)

lemma bind_res_Inl [simp]: "bind_res (Inl x) f = Inl x"
  by (simp add: bind_res_def)

lemma bind_res_eq_Inr: "bind_res r f = Inr z \<longleftrightarrow> (\<exists>y. r = Inr y \<and> f y = Inr z)"
  by (cases r) simp_all

datatype 'v op = MakeEntity "sign_t list" string | Destroy entity | Rename entity string | Clear
  | Attach sign_t entity 'v | Detach "sign_t list" entity

fun exec :: "(sign_t \<Rightarrow> 'v) \<Rightarrow> 'v op \<Rightarrow> 'v registry \<Rightarrow> error + (entity list \<times> 'v registry)" where
  "exec dflt (MakeEntity sigs nm) s = bind_res (make_entity dflt sigs nm s) (\<lambda>(e, s'). Inr ([e], s'))"
| "exec dflt (Destroy e) s = bind_res (destroy e s) (\<lambda>(b, s'). Inr ([], s'))"
| "exec dflt (Rename e nm) s = Inr ([], snd (rename e nm s))"
| "exec dflt Clear s = Inr ([], clear s)"
| "exec dflt (Attach g e v) s = bind_res (attach g e v s) (\<lambda>(x, s'). Inr ([], s'))"
| "exec dflt (Detach gs e) s = bind_res (detach gs e s) (\<lambda>(b, s'). Inr ([], s'))"

fun run :: "(sign_t \<Rightarrow> 'v) \<Rightarrow> 'v op list \<Rightarrow> 'v registry \<Rightarrow> error + (entity list \<times> 'v registry)" where
  "run dflt [] s = Inr ([], s)"
| "run dflt (x # ops) s =
     bind_res (exec dflt x s) (\<lambda>(es, s1).
       bind_res (run dflt ops s1) (\<lambda>(es', s2). Inr (es @ es', s2)))"

definition counters :: "'v registry \<Rightarrow> 64 word \<times> 64 word" where
  "counters s = (m_next_id s, m_id s)"

lemmas res_splits = option.split_asm if_split_asm sum.split_asm prod.split_asm

lemma send_to_back_counters: "send_to_back e s = Inr s' \<Longrightarrow> counters s' = counters s"
  by (auto simp: send_to_back_def counters_def bind_res_def split: res_splits)

lemma migrate_to_counters: "migrate_to e out s = Inr s' \<Longrightarrow> counters s' = counters s"
  by (auto simp: migrate_to_def counters_def bind_res_def dest!: send_to_back_counters split: res_splits)

lemma destroy_counters: "destroy e s = Inr (b, s') \<Longrightarrow> counters s' = counters s"
  by (auto simp: destroy_def counters_def bind_res_def dest!: migrate_to_counters split: res_splits)

lemma attach_push_counters: "attach_push g e t s = Inr (v, s') \<Longrightarrow> counters s' = counters s"
  by (auto simp: attach_push_def counters_def bind_res_def split: res_splits)

lemma attach_counters: "attach g e t s = Inr (v, s') \<Longrightarrow> counters s' = counters s"
  by (auto simp: attach_def counters_def bind_res_def Let_def get_or_make_record_def
      dest!: migrate_to_counters attach_push_counters split: res_splits)

lemma do_detach_counters: "do_detach g e s = Inr (b, s') \<Longrightarrow> counters s' = counters s"
  by (auto simp: do_detach_def counters_def bind_res_def split: res_splits)

lemma detach_counters: "detach gs e s = Inr (b, s') \<Longrightarrow> counters s' = counters s"
proof (induction gs arbitrary: s)
  case Nil
  then show ?case by simp
next
  case (Cons g gs)
  then show ?case
    by (auto simp: bind_res_def dest!: do_detach_counters split: res_splits)
qed

lemma emplace_back_record_counters:
  "emplace_back_record dflt e k g s = Inr s' \<Longrightarrow> counters s' = counters s"
  by (auto simp: emplace_back_record_def counters_def split: res_splits)

lemma emplace_back_all_counters:
  "emplace_back_all dflt e k gs s = Inr s' \<Longrightarrow> counters s' = counters s"
  by (induction gs arbitrary: s) (auto simp: bind_res_def dest!: emplace_back_record_counters split: res_splits)

lemma make_entity_counters:
  "make_entity dflt sigs nm s = Inr (e, s') \<Longrightarrow>
     e = \<lparr>eid = m_next_id s + 1, registry_id = m_id s\<rparr> \<and> counters s' = (m_next_id s + 1, m_id s)"
  by (auto simp: make_entity_def Let_def bind_res_def counters_def
      dest!: emplace_back_all_counters split: res_splits)


definition handle :: "'v registry \<Rightarrow> nat \<Rightarrow> entity" where
  "handle s j = \<lparr>eid = m_next_id s + of_nat j, registry_id = m_id s\<rparr>"

lemma map_upt_append: "map f [0..<n] @ map (\<lambda>j. f (n + j)) [0..<m] = map f [0..<n + m]"
  by (induction m) simp_all

lemma exec_issued:
  "exec dflt x s = Inr (es, s') \<Longrightarrow>
     es = map (\<lambda>j. handle s (Suc j)) [0..<length es] \<and>
     counters s' = (m_next_id s + of_nat (length es), m_id s)"
  by (cases x)
     (auto simp: bind_res_def handle_def counters_def clear_def rename_def
       dest!: make_entity_counters destroy_counters attach_counters detach_counters
       split: res_splits option.splits)

lemma run_issued:
  "run dflt ops s = Inr (es, s') \<Longrightarrow>
     es = map (\<lambda>j. handle s (Suc j)) [0..<length es] \<and>
     counters s' = (m_next_id s + of_nat (length es), m_id s)"
proof (induction ops arbitrary: s es)
  case Nil
  then show ?case by (simp add: counters_def)
next
  case (Cons x ops)
  from Cons.prems obtain es1 s1 es2 where
    x: "exec dflt x s = Inr (es1, s1)" and r: "run dflt ops s1 = Inr (es2, s')" and es: "es = es1 @ es2"
    by (auto simp: bind_res_def split: res_splits)
  note h1 = exec_issued [OF x] and h2 = Cons.IH [OF r]
  have c1: "m_next_id s1 = m_next_id s + of_nat (length es1)" "m_id s1 = m_id s"
    using h1 by (simp_all add: counters_def)
  have "handle s1 j = handle s (length es1 + j)" for j
    by (simp add: handle_def c1 add.assoc)
  then have "es2 = map (\<lambda>j. handle s (length es1 + Suc j)) [0..<length es2]"
    using h2 by simp
  moreover have "es1 = map (\<lambda>j. handle s (Suc j)) [0..<length es1]"
    using h1 by simp
  ultimately have "es = map (\<lambda>j. handle s (Suc j)) [0..<length es1 + length es2]"
    unfolding es using map_upt_append [of "\<lambda>j. handle s (Suc j)" "length es1" "length es2"]
    by simp
  then show ?case
    using h2 c1 by (simp add: counters_def es add.assoc)
qed

lemma handle_inj:
  "i < 2 ^ 64 \<Longrightarrow> j < 2 ^ 64 \<Longrightarrow> handle s i = handle s j \<Longrightarrow> i = j"
  by (simp add: handle_def word_of_nat_eq_iff take_bit_nat_eq_self)

lemma issued_distinct:
  assumes "run dflt ops s = Inr (es, s')" "length es < 2 ^ 64"
  shows "distinct es"
proof -
  have "es = map (\<lambda>j. handle s (Suc j)) [0..<length es]"
    using run_issued [OF assms(1)] by simp
  moreover have "inj_on (\<lambda>j. handle s (Suc j)) (set [0..<length es])"
    using assms(2) by (auto intro!: inj_onI dest!: handle_inj [of _ _ s, rotated 2])
  ultimately show ?thesis
    by (metis distinct_map distinct_upt)
qed

lemma emplace_back_all_ok:
  "map_of (m_map s) k = Some a \<Longrightarrow> set gs \<subseteq> dom (m_arrays a) \<Longrightarrow>
     \<exists>s'. emplace_back_all dflt e k gs s = Inr s'"
proof (induction gs arbitrary: s a)
  case Nil
  then show ?case by simp
next
  case (Cons g gs)
  from Cons.prems obtain vec where vec: "m_arrays a g = Some vec" by auto
  define a' where "a' = a\<lparr>m_arrays := (m_arrays a)(g \<mapsto> vec @ [dflt g])\<rparr>"
  define s1 where "s1 = s\<lparr>m_map := AList.update k a' (m_map s),
     m_records := (m_records s)(e \<mapsto> (records_at (m_records s) e)\<lparr>arch := Some k, index := length vec\<rparr>)\<rparr>"
  have step: "emplace_back_record dflt e k g s = Inr s1"
    using Cons.prems(1) vec by (simp add: emplace_back_record_def s1_def a'_def)
  have "map_of (m_map s1) k = Some a'" by (simp add: s1_def update_conv')
  moreover have "set gs \<subseteq> dom (m_arrays a')" using Cons.prems(2) by (auto simp: a'_def)
  ultimately obtain s' where "emplace_back_all dflt e k gs s1 = Inr s'"
    using Cons.IH by blast
  then show ?case using step by simp
qed

lemma bind_res_pair_ex:
  "(\<exists>s'. bind_res r (\<lambda>s2. Inr (e, s2)) = Inr (e, s')) \<longleftrightarrow> (\<exists>s'. r = Inr s')"
  by (cases r) simp_all

lemma make_entity_clear:
  "\<exists>s'. make_entity dflt sigs nm (clear s) = Inr (\<lparr>eid = m_next_id s + 1, registry_id = m_id s\<rparr>, s')"
proof (cases "sigs = []")
  case True
  then show ?thesis by (simp add: make_entity_def clear_def Let_def)
next
  case False
  have "set sigs \<subseteq> dom (m_arrays (push_back (new_archetype (make_id sigs)) e :: 'a archetype))" for e
    by (auto simp: push_back_def new_archetype_def make_id_def)
  then show ?thesis
    using False
    by (auto simp: make_entity_def clear_def Let_def get_or_make_def bind_res_pair_ex
        intro!: emplace_back_all_ok)
qed

section \<open>Invariants\<close>

definition inv_map :: "'v registry \<Rightarrow> bool" where
  "inv_map s \<longleftrightarrow> distinct (map fst (m_map s)) \<and>
     (\<forall>k a. map_of (m_map s) k = Some a \<longrightarrow> types a = k \<and> dom (m_arrays a) = set k)"

definition inv_I1 :: "'v registry \<Rightarrow> bool" where
  "inv_I1 s \<longleftrightarrow> (\<forall>k a g c. map_of (m_map s) k = Some a \<longrightarrow> m_arrays a g = Some c \<longrightarrow>
     length c = length (m_entities a))"

definition inv_I2 :: "'v registry \<Rightarrow> bool" where
  "inv_I2 s \<longleftrightarrow> (\<forall>e r k. m_records s e = Some r \<longrightarrow> arch r = Some k \<longrightarrow>
     (\<exists>a. map_of (m_map s) k = Some a \<and> index r < length (m_entities a) \<and>
          m_entities a ! index r = e))"

definition inv_I3 :: "'v registry \<Rightarrow> bool" where
  "inv_I3 s \<longleftrightarrow> (\<forall>k a i. map_of (m_map s) k = Some a \<longrightarrow> i < length (m_entities a) \<longrightarrow>
     (\<exists>r. m_records s (m_entities a ! i) = Some r \<and> arch r = Some k \<and> index r = i))"

definition registry_ok :: "'v registry \<Rightarrow> bool" where
  "registry_ok s \<longleftrightarrow> inv_map s \<and> inv_I1 s \<and> inv_I2 s \<and> inv_I3 s \<and> finite (dom (m_records s))"

definition remove_row :: "'v archetype \<Rightarrow> nat \<Rightarrow> 'v archetype" where
  "remove_row a i =
     a\<lparr>m_entities := butlast (swap_last (m_entities a) i),
       m_arrays := (\<lambda>g. map_option (\<lambda>c. butlast (swap_last c i)) (m_arrays a g))\<rparr>"

definition add_row :: "'v archetype \<Rightarrow> entity \<Rightarrow> (sign_t \<Rightarrow> 'v) \<Rightarrow> 'v archetype" where
  "add_row b e vals =
     b\<lparr>m_entities := m_entities b @ [e],
       m_arrays := (\<lambda>g. map_option (\<lambda>c. c @ [vals g]) (m_arrays b g))\<rparr>"

definition take_out :: "entity \<Rightarrow> reg_record option \<Rightarrow> 'v registry \<Rightarrow> 'v registry" where
  "take_out e ro s =
     (case m_records s e of
        None \<Rightarrow> s
      | Some r \<Rightarrow>
         (case arch r of
            None \<Rightarrow> s\<lparr>m_records := (m_records s)(e := ro)\<rparr>
          | Some k \<Rightarrow>
             (case map_of (m_map s) k of
                None \<Rightarrow> s
              | Some a \<Rightarrow>
                 s\<lparr>m_map := AList.update k (remove_row a (index r)) (m_map s),
                   m_records := ((m_records s)(last (m_entities a) \<mapsto>
                      (records_at (m_records s) (last (m_entities a)))\<lparr>index := index r\<rparr>))(e := ro)\<rparr>)))"

definition with_arch :: "sign_t list \<Rightarrow> 'v registry \<Rightarrow> 'v registry" where
  "with_arch k s =
     s\<lparr>m_map := (if map_of (m_map s) k = None then AList.update k (new_archetype k) (m_map s)
                 else m_map s)\<rparr>"

definition put_in ::
  "entity \<Rightarrow> sign_t list \<Rightarrow> (sign_t \<Rightarrow> 'v) \<Rightarrow> reg_record \<Rightarrow> 'v registry \<Rightarrow> 'v registry" where
  "put_in e k vals r s =
     (case map_of (m_map s) k of
        None \<Rightarrow> s
      | Some b \<Rightarrow>
         s\<lparr>m_map := AList.update k (add_row b e vals) (m_map s),
           m_records := (m_records s)(e \<mapsto> r\<lparr>arch := Some k, index := length (m_entities b)\<rparr>)\<rparr>)"

lemma swap_last_length [simp]: "length (swap_last xs i) = length xs"
  by (simp add: swap_last_def)

lemma swap_last_last: "Suc i = length xs \<Longrightarrow> swap_last xs i = xs"
proof -
  assume a: "Suc i = length xs"
  then have "length xs - 1 = i" by simp
  then show ?thesis by (simp add: swap_last_def)
qed

lemma swap_last_nth_i: "i < length xs \<Longrightarrow> Suc i \<noteq> length xs \<Longrightarrow> swap_last xs i ! i = last xs"
  by (auto simp: swap_last_def)

lemma nth_Suc_last: "Suc i = length xs \<Longrightarrow> xs ! i = last xs"
  by (cases xs rule: rev_cases) auto

lemma swap_last_nth_i': "i < length xs \<Longrightarrow> swap_last xs i ! i = last xs"
  by (cases "Suc i = length xs")
     (simp_all add: swap_last_last swap_last_nth_i nth_Suc_last)

lemma swap_last_lastelem: "i < length xs \<Longrightarrow> last (swap_last xs i) = xs ! i"
  by (cases xs rule: rev_cases) (auto simp: swap_last_def last_conv_nth)

lemma remove_nth:
  "j < length xs - 1 \<Longrightarrow> butlast (swap_last xs i) ! j = (if j = i then last xs else xs ! j)"
  by (auto simp: swap_last_def nth_butlast)

lemma update_commute:
  "k \<in> fst ` set m \<Longrightarrow> k \<noteq> k' \<Longrightarrow>
     AList.update k v (AList.update k' w m) = AList.update k' w (AList.update k v m)"
  by (induction m) auto

lemma map_of_dom_fst: "map_of m k = Some a \<Longrightarrow> k \<in> fst ` set m"
  by (metis domI dom_map_of_conv_image_fst)

lemma wf_recD:
  assumes "registry_ok s" "m_records s e = Some r" "arch r = Some k"
  obtains a where "map_of (m_map s) k = Some a" "index r < length (m_entities a)"
    "m_entities a ! index r = e" "types a = k" "dom (m_arrays a) = set k"
    "\<And>g c. m_arrays a g = Some c \<Longrightarrow> length c = length (m_entities a)"
proof -
  from assms obtain a where a: "map_of (m_map s) k = Some a" "index r < length (m_entities a)"
    "m_entities a ! index r = e"
    unfolding registry_ok_def inv_I2_def by blast
  moreover have "types a = k" "dom (m_arrays a) = set k"
    using assms(1) a(1) unfolding registry_ok_def inv_map_def by blast+
  moreover have "\<And>g c. m_arrays a g = Some c \<Longrightarrow> length c = length (m_entities a)"
    using assms(1) a(1) unfolding registry_ok_def inv_I1_def by blast
  ultimately show ?thesis using that by blast
qed

lemma wf_entD:
  assumes "registry_ok s" "map_of (m_map s) k = Some a" "i < length (m_entities a)"
  obtains r where "m_records s (m_entities a ! i) = Some r" "arch r = Some k" "index r = i"
  using assms unfolding registry_ok_def inv_I3_def by blast

lemma wf_archD:
  assumes "registry_ok s" "map_of (m_map s) k = Some a"
  shows "types a = k" "dom (m_arrays a) = set k"
    "\<And>g c. m_arrays a g = Some c \<Longrightarrow> length c = length (m_entities a)"
  using assms unfolding registry_ok_def inv_map_def inv_I1_def by blast+

lemma wf_no_arch_not_in:
  assumes "registry_ok s" "map_of (m_map s) k = Some a" "i < length (m_entities a)"
    "m_records s e = None \<or> (\<exists>r. m_records s e = Some r \<and> arch r = None)"
  shows "m_entities a ! i \<noteq> e"
  using wf_entD [OF assms(1-3)] assms(4) by (metis option.distinct(1) option.inject)

lemma wf_take_out:
  assumes wf: "registry_ok s" and ro: "\<And>r'. ro = Some r' \<Longrightarrow> arch r' = None"
  shows "registry_ok (take_out e ro s)"
proof (cases "m_records s e")
  case None
  then show ?thesis using wf by (simp add: take_out_def)
next
  case (Some r)
  show ?thesis
  proof (cases "arch r")
    case None
    have eq: "take_out e ro s = s\<lparr>m_records := (m_records s)(e := ro)\<rparr>"
      using Some None by (simp add: take_out_def)
    have notin: "m_entities a ! i \<noteq> e" if "map_of (m_map s) k = Some a" "i < length (m_entities a)" for k a i
      using wf_no_arch_not_in [OF wf that] Some None by simp
    have "inv_I2 (take_out e ro s)"
      using wf ro unfolding eq registry_ok_def inv_I2_def by auto
    moreover have "inv_I3 (take_out e ro s)"
      using wf notin unfolding eq registry_ok_def inv_I3_def by auto
    moreover have "inv_map (take_out e ro s)" "inv_I1 (take_out e ro s)"
      using wf unfolding eq registry_ok_def inv_map_def inv_I1_def by auto
    moreover have "finite (dom (m_records (take_out e ro s)))"
      using wf unfolding eq registry_ok_def by (cases ro) auto
    ultimately show ?thesis unfolding registry_ok_def by blast
  next
    case (Some k)
    note r = \<open>m_records s e = Some r\<close> and k = Some
    from wf_recD [OF wf r k] obtain a where
      a: "map_of (m_map s) k = Some a" and i: "index r < length (m_entities a)"
      and ei: "m_entities a ! index r = e" and ty: "types a = k" and dm: "dom (m_arrays a) = set k"
      and len: "\<And>g c. m_arrays a g = Some c \<Longrightarrow> length c = length (m_entities a)"
      by blast
    define i0 where "i0 = index r"
    define es where "es = m_entities a"
    define n where "n = length es"
    define d where "d = last es"
    have n: "i0 < n" "0 < n" using i by (auto simp: i0_def es_def n_def)
    have dn: "d = es ! (n - 1)" using n by (simp add: d_def n_def last_conv_nth)
    from wf_entD [OF wf a, of "n - 1"] n obtain rd where
      rd: "m_records s d = Some rd" "arch rd = Some k" "index rd = n - 1"
      unfolding dn es_def n_def by auto
    define s' where "s' = take_out e ro s"
    have mp: "map_of (m_map s') = (map_of (m_map s))(k \<mapsto> remove_row a i0)"
      using r k a by (simp add: s'_def take_out_def update_conv' i0_def)
    have rc: "m_records s' = ((m_records s)(d \<mapsto> rd\<lparr>index := i0\<rparr>))(e := ro)"
      using r k a rd by (simp add: s'_def take_out_def i0_def d_def es_def records_at_def)
    have keys: "distinct (map fst (m_map s'))"
      using wf r k a by (simp add: s'_def take_out_def registry_ok_def inv_map_def distinct_update)
    have es': "m_entities (remove_row a i0) = butlast (swap_last es i0)"
      by (simp add: remove_row_def es_def)
    have nth': "m_entities (remove_row a i0) ! j = (if j = i0 then d else es ! j)" if "j < n - 1" for j
      using that unfolding es' d_def n_def by (rule remove_nth)
    have len': "length (m_entities (remove_row a i0)) = n - 1"
      by (simp add: es' n_def)
    have de: "d = e \<longleftrightarrow> i0 = n - 1"
    proof
      assume "d = e"
      then have "m_records s (es ! (n - 1)) = Some r" using r dn by simp
      with rd dn show "i0 = n - 1" by (simp add: i0_def)
    next
      assume "i0 = n - 1" then show "d = e" using ei dn by (simp add: i0_def es_def)
    qed
    have "inv_map s'"
      unfolding inv_map_def
      using keys wf_archD(1,2) [OF wf] ty dm
      by (auto simp: mp remove_row_def dom_def split: if_splits)
    moreover have "inv_I1 s'"
      unfolding inv_I1_def
    proof (intro allI impI)
      fix k2 a2 g c assume h: "map_of (m_map s') k2 = Some a2" "m_arrays a2 g = Some c"
      show "length c = length (m_entities a2)"
      proof (cases "k2 = k")
        case True
        with h have a2: "a2 = remove_row a i0" by (simp add: mp)
        with h(2) obtain c0 where "m_arrays a g = Some c0" "c = butlast (swap_last c0 i0)"
          by (auto simp: remove_row_def)
        then show ?thesis using len [of g c0] by (simp add: a2 len' n_def es_def)
      next
        case False
        with h wf_archD(3) [OF wf] show ?thesis by (simp add: mp)
      qed
    qed
    moreover have "inv_I2 s'"
      unfolding inv_I2_def
    proof (intro allI impI)
      fix e2 r2 k2 assume h: "m_records s' e2 = Some r2" "arch r2 = Some k2"
      have ne: "e2 \<noteq> e" using h ro by (auto simp: rc)
      show "\<exists>a. map_of (m_map s') k2 = Some a \<and> index r2 < length (m_entities a) \<and>
          m_entities a ! index r2 = e2"
      proof (cases "e2 = d")
        case True
        with h ne have r2: "r2 = rd\<lparr>index := i0\<rparr>" by (simp add: rc)
        with h rd have k2: "k2 = k" by simp
        have "i0 < n - 1" using ne True de n by auto
        then show ?thesis using nth' [of i0] by (simp add: k2 mp r2 len' True)
      next
        case False
        with h ne have r2: "m_records s e2 = Some r2" by (simp add: rc)
        from wf_recD [OF wf r2 h(2)] obtain a2 where
          a2: "map_of (m_map s) k2 = Some a2" "index r2 < length (m_entities a2)"
          "m_entities a2 ! index r2 = e2" by blast
        show ?thesis
        proof (cases "k2 = k")
          case True
          with a2 a have [simp]: "a2 = a" by simp
          have "index r2 \<noteq> i0" using a2(3) ei ne by (auto simp: i0_def)
          moreover have "index r2 \<noteq> n - 1" using a2(3) False dn by (auto simp: es_def)
          ultimately have "index r2 < n - 1" using a2(2) by (simp add: n_def es_def)
          then show ?thesis using nth' [of "index r2"] a2(3) \<open>index r2 \<noteq> i0\<close>
            by (simp add: True mp len' es_def)
        next
          case False
          then show ?thesis using a2 by (simp add: mp)
        qed
      qed
    qed
    moreover have "inv_I3 s'"
      unfolding inv_I3_def
    proof (intro allI impI)
      fix k2 a2 j assume h: "map_of (m_map s') k2 = Some a2" "j < length (m_entities a2)"
      show "\<exists>r. m_records s' (m_entities a2 ! j) = Some r \<and> arch r = Some k2 \<and> index r = j"
      proof (cases "k2 = k")
        case True
        with h have a2: "a2 = remove_row a i0" by (simp add: mp)
        have j: "j < n - 1" using h(2) by (simp add: a2 len')
        show ?thesis
        proof (cases "j = i0")
          case True
          have "d \<noteq> e" using j True de by auto
          then show ?thesis using nth' [OF j] rd True by (simp add: a2 rc \<open>k2 = k\<close>)
        next
          case False
          have "j < length (m_entities a)" using j by (simp add: n_def es_def)
          from wf_entD [OF wf a this] obtain rj where
            rj: "m_records s (es ! j) = Some rj" "arch rj = Some k" "index rj = j"
            unfolding es_def by blast
          have "es ! j \<noteq> e" using rj r False by (auto simp: i0_def)
          moreover have "es ! j \<noteq> d" using rj rd j by auto
          ultimately show ?thesis using nth' [OF j] rj False by (simp add: a2 rc \<open>k2 = k\<close>)
        qed
      next
        case False
        with h have a2: "map_of (m_map s) k2 = Some a2" by (simp add: mp)
        from wf_entD [OF wf a2 h(2)] obtain rj where
          rj: "m_records s (m_entities a2 ! j) = Some rj" "arch rj = Some k2" "index rj = j"
          by blast
        have "m_entities a2 ! j \<noteq> e" using rj r k False by auto
        moreover have "m_entities a2 ! j \<noteq> d" using rj rd False by auto
        ultimately show ?thesis using rj by (simp add: rc)
      qed
    qed
    moreover have "finite (dom (m_records s'))"
      using wf unfolding registry_ok_def rc by (cases ro) auto
    ultimately show ?thesis unfolding registry_ok_def s'_def by blast
  qed
qed

lemma wf_with_arch:
  assumes wf: "registry_ok s"
  shows "registry_ok (with_arch k s)"
proof (cases "map_of (m_map s) k")
  case (Some a)
  then show ?thesis using wf by (simp add: with_arch_def)
next
  case None
  define s' where "s' = with_arch k s"
  have mp: "map_of (m_map s') = (map_of (m_map s))(k \<mapsto> new_archetype k)"
    using None by (simp add: s'_def with_arch_def update_conv')
  have rc: "m_records s' = m_records s"
    by (simp add: s'_def with_arch_def)
  have keys: "distinct (map fst (m_map s'))"
    using wf by (simp add: s'_def with_arch_def registry_ok_def inv_map_def distinct_update)
  have "inv_map s'"
    unfolding inv_map_def using keys wf_archD(1,2) [OF wf]
    by (auto simp: mp new_archetype_def dom_def split: if_splits)
  moreover have "inv_I1 s'"
    unfolding inv_I1_def using wf_archD(3) [OF wf]
    by (auto simp: mp new_archetype_def split: if_splits)
  moreover have "inv_I2 s'"
    unfolding inv_I2_def
  proof (intro allI impI)
    fix e2 r2 k2 assume h: "m_records s' e2 = Some r2" "arch r2 = Some k2"
    then have r2: "m_records s e2 = Some r2" by (simp add: rc)
    from wf_recD [OF wf r2 h(2)] obtain a2 where
      a2: "map_of (m_map s) k2 = Some a2" "index r2 < length (m_entities a2)"
      "m_entities a2 ! index r2 = e2" by blast
    then have "k2 \<noteq> k" using None by auto
    then show "\<exists>a. map_of (m_map s') k2 = Some a \<and> index r2 < length (m_entities a) \<and>
          m_entities a ! index r2 = e2"
      using a2 by (simp add: mp)
  qed
  moreover have "inv_I3 s'"
    unfolding inv_I3_def
  proof (intro allI impI)
    fix k2 a2 j assume h: "map_of (m_map s') k2 = Some a2" "j < length (m_entities a2)"
    then have "k2 \<noteq> k" by (auto simp: mp new_archetype_def)
    with h have a2: "map_of (m_map s) k2 = Some a2" by (simp add: mp)
    from wf_entD [OF wf a2 h(2)]
    show "\<exists>r. m_records s' (m_entities a2 ! j) = Some r \<and> arch r = Some k2 \<and> index r = j"
      by (auto simp: rc)
  qed
  moreover have "finite (dom (m_records s'))"
    using wf by (simp add: rc registry_ok_def)
  ultimately show ?thesis unfolding registry_ok_def s'_def by blast
qed

lemma wf_put_in:
  assumes wf: "registry_ok s"
    and e: "m_records s e = None \<or> (\<exists>r. m_records s e = Some r \<and> arch r = None)"
    and b: "map_of (m_map s) k = Some b"
  shows "registry_ok (put_in e k vals r s)"
proof -
  define s' where "s' = put_in e k vals r s"
  define n where "n = length (m_entities b)"
  have mp: "map_of (m_map s') = (map_of (m_map s))(k \<mapsto> add_row b e vals)"
    using b by (simp add: s'_def put_in_def update_conv')
  have rc: "m_records s' = (m_records s)(e \<mapsto> r\<lparr>arch := Some k, index := n\<rparr>)"
    using b by (simp add: s'_def put_in_def n_def)
  have keys: "distinct (map fst (m_map s'))"
    using wf b by (simp add: s'_def put_in_def registry_ok_def inv_map_def distinct_update)
  have es': "m_entities (add_row b e vals) = m_entities b @ [e]"
    by (simp add: add_row_def)
  have "inv_map s'"
    unfolding inv_map_def using keys wf_archD(1,2) [OF wf] wf_archD(1,2) [OF wf b]
    by (auto simp: mp add_row_def dom_def split: if_splits)
  moreover have "inv_I1 s'"
    unfolding inv_I1_def using wf_archD(3) [OF wf]  wf_archD(3) [OF wf b]
    by (auto simp: mp add_row_def split: if_splits)
  moreover have "inv_I2 s'"
    unfolding inv_I2_def
  proof (intro allI impI)
    fix e2 r2 k2 assume h: "m_records s' e2 = Some r2" "arch r2 = Some k2"
    show "\<exists>a. map_of (m_map s') k2 = Some a \<and> index r2 < length (m_entities a) \<and>
          m_entities a ! index r2 = e2"
    proof (cases "e2 = e")
      case True
      with h have "r2 = r\<lparr>arch := Some k, index := n\<rparr>" by (simp add: rc)
      with h have "k2 = k" "index r2 = n" by auto
      then show ?thesis by (simp add: mp es' n_def True)
    next
      case False
      with h have r2: "m_records s e2 = Some r2" by (simp add: rc)
      from wf_recD [OF wf r2 h(2)] obtain a2 where
        a2: "map_of (m_map s) k2 = Some a2" "index r2 < length (m_entities a2)"
        "m_entities a2 ! index r2 = e2" by blast
      then show ?thesis using b by (cases "k2 = k") (auto simp: mp add_row_def nth_append)
    qed
  qed
  moreover have "inv_I3 s'"
    unfolding inv_I3_def
  proof (intro allI impI)
    fix k2 a2 j assume h: "map_of (m_map s') k2 = Some a2" "j < length (m_entities a2)"
    show "\<exists>r. m_records s' (m_entities a2 ! j) = Some r \<and> arch r = Some k2 \<and> index r = j"
    proof (cases "k2 = k \<and> j = n")
      case True
      with h have "a2 = add_row b e vals" by (simp add: mp)
      then show ?thesis using True by (simp add: es' rc n_def)
    next
      case False
      have "\<exists>a0. map_of (m_map s) k2 = Some a0 \<and> j < length (m_entities a0) \<and>
          m_entities a2 ! j = m_entities a0 ! j"
      proof (cases "k2 = k")
        case True
        with h have "a2 = add_row b e vals" by (simp add: mp)
        then show ?thesis using h False b True by (auto simp: es' n_def nth_append)
      next
        case False
        with h show ?thesis by (simp add: mp)
      qed
      then obtain a0 where a0: "map_of (m_map s) k2 = Some a0" "j < length (m_entities a0)"
        "m_entities a2 ! j = m_entities a0 ! j" by blast
      from wf_entD [OF wf a0(1,2)] obtain rj where
        rj: "m_records s (m_entities a0 ! j) = Some rj" "arch rj = Some k2" "index rj = j"
        by blast
      have "m_entities a0 ! j \<noteq> e" using wf_no_arch_not_in [OF wf a0(1,2) e] .
      then show ?thesis using rj a0(3) by (simp add: rc)
    qed
  qed
  moreover have "finite (dom (m_records s'))"
    using wf by (simp add: rc registry_ok_def)
  ultimately show ?thesis unfolding registry_ok_def s'_def by blast
qed

definition rotate_row :: "'v archetype \<Rightarrow> nat \<Rightarrow> 'v archetype" where
  "rotate_row a i =
     a\<lparr>m_entities := swap_last (m_entities a) i,
       m_arrays := (\<lambda>g. map_option (\<lambda>c. swap_last c i) (m_arrays a g))\<rparr>"

lemma columns_allI:
  "(\<And>g c. m_arrays a g = Some c \<Longrightarrow> p c) \<Longrightarrow> columns_all a p"
  by (auto simp: columns_all_def list_all_iff split: option.split)

lemma rotate_last:
  assumes "Suc i = length (m_entities a)"
    "\<And>g c. m_arrays a g = Some c \<Longrightarrow> length c = length (m_entities a)"
  shows "rotate_row a i = a"
proof -
  have "map_option (\<lambda>c. swap_last c i) (m_arrays a g) = m_arrays a g" for g
    using assms by (cases "m_arrays a g") (auto simp: swap_last_last)
  then show ?thesis
    using assms(1) by (simp add: rotate_row_def swap_last_last)
qed

lemma pop_rotate:
  "(rotate_row a i)\<lparr>m_entities := butlast (m_entities (rotate_row a i)),
       m_arrays := (\<lambda>g. map_option butlast (m_arrays (rotate_row a i) g))\<rparr> = remove_row a i"
  by (simp add: rotate_row_def remove_row_def option.map_comp comp_def)

lemma swap_back_eq:
  assumes "i < length (m_entities a)"
    "\<And>g c. m_arrays a g = Some c \<Longrightarrow> length c = length (m_entities a)"
  shows "swap_back a i = Inr (last (m_entities a), rotate_row a i)"
proof -
  have "columns_all a (\<lambda>c. i < length c)"
    using assms by (auto intro!: columns_allI)
  then show ?thesis
    using assms(1) by (simp add: swap_back_def rotate_row_def swap_last_nth_i')
qed

lemma pop_back_rotate_eq:
  assumes "i < length (m_entities a)"
    "\<And>g c. m_arrays a g = Some c \<Longrightarrow> length c = length (m_entities a)"
  shows "pop_back (rotate_row a i) = Inr (remove_row a i)"
proof -
  have "columns_all (rotate_row a i) (\<lambda>c. c \<noteq> [])"
    using assms by (intro columns_allI) (fastforce simp: rotate_row_def swap_last_def)
  moreover have "m_entities (rotate_row a i) \<noteq> []"
    using assms(1) by (auto simp: rotate_row_def swap_last_def)
  ultimately show ?thesis
    by (simp add: pop_back_def pop_rotate)
qed

definition receive_row :: "'v archetype \<Rightarrow> entity \<Rightarrow> 'v archetype \<Rightarrow> nat \<Rightarrow> 'v archetype" where
  "receive_row b e a i =
     b\<lparr>m_entities := m_entities b @ [e],
       m_arrays := (\<lambda>g. case m_arrays b g of
                      None \<Rightarrow> None
                    | Some oc \<Rightarrow> (case m_arrays a g of
                                   None \<Rightarrow> Some oc
                                 | Some c \<Rightarrow> Some (oc @ [c ! i])))\<rparr>"

lemma migrate_back_rotate_eq:
  assumes "i < length (m_entities a)"
    "\<And>g c. m_arrays a g = Some c \<Longrightarrow> length c = length (m_entities a)"
  shows "migrate_back (rotate_row a i) out =
     Inr (m_entities a ! i, remove_row a i, map_option (\<lambda>b. receive_row b (m_entities a ! i) a i) out)"
proof -
  have "columns_all (rotate_row a i) (\<lambda>c. c \<noteq> [])"
    using assms by (intro columns_allI) (fastforce simp: rotate_row_def swap_last_def)
  moreover have "m_entities (rotate_row a i) \<noteq> []"
    using assms(1) by (auto simp: rotate_row_def swap_last_def)
  moreover have "last (m_entities (rotate_row a i)) = m_entities a ! i"
    using assms(1) by (simp add: rotate_row_def swap_last_lastelem)
  moreover have "(case m_arrays b g of None \<Rightarrow> None
          | Some oc \<Rightarrow> (case m_arrays (rotate_row a i) g of None \<Rightarrow> Some oc | Some c \<Rightarrow> Some (oc @ [last c])))
       = (case m_arrays b g of None \<Rightarrow> None
          | Some oc \<Rightarrow> (case m_arrays a g of None \<Rightarrow> Some oc | Some c \<Rightarrow> Some (oc @ [c ! i])))" for b :: "'a archetype" and g
    using assms by (auto simp: rotate_row_def swap_last_lastelem split: option.split)
  ultimately show ?thesis
    by (cases out) (simp_all add: migrate_back_def pop_rotate receive_row_def)
qed

lemma wf_last_rec:
  assumes "registry_ok s" "map_of (m_map s) k = Some a" "i < length (m_entities a)"
  obtains rd where "m_records s (last (m_entities a)) = Some rd" "arch rd = Some k"
    "index rd = length (m_entities a) - 1"
proof -
  have "m_entities a \<noteq> []" using assms(3) by auto
  then have "last (m_entities a) = m_entities a ! (length (m_entities a) - 1)"
    by (rule last_conv_nth)
  moreover have "length (m_entities a) - 1 < length (m_entities a)" using assms(3) by simp
  ultimately show ?thesis using wf_entD [OF assms(1,2)] that by metis
qed

definition rotated :: "entity \<Rightarrow> 'v registry \<Rightarrow> 'v registry" where
  "rotated e s =
     (case m_records s e of
        None \<Rightarrow> s
      | Some r \<Rightarrow>
         (case arch r of
            None \<Rightarrow> s
          | Some k \<Rightarrow>
             (case map_of (m_map s) k of
                None \<Rightarrow> s
              | Some a \<Rightarrow>
                 s\<lparr>m_map := AList.update k (rotate_row a (index r)) (m_map s),
                   m_records := (m_records s)(last (m_entities a) \<mapsto>
                      (records_at (m_records s) (last (m_entities a)))\<lparr>index := index r\<rparr>)\<rparr>)))"

lemma rotated_last:
  assumes wf: "registry_ok s" and r: "m_records s e = Some r" and k: "arch r = Some k"
    and a: "map_of (m_map s) k = Some a" and l: "is_last a (index r)"
  shows "rotated e s = s"
proof -
  from wf_recD [OF wf r k] a have
    i: "index r < length (m_entities a)" and ei: "m_entities a ! index r = e"
    and len: "\<And>g c. m_arrays a g = Some c \<Longrightarrow> length c = length (m_entities a)"
    by auto
  have l': "Suc (index r) = length (m_entities a)" using l by (simp add: is_last_def)
  have "rotate_row a (index r) = a" using rotate_last [OF l' len] .
  moreover have "last (m_entities a) = e" using nth_Suc_last [OF l'] ei by simp
  moreover have "AList.update k a (m_map s) = m_map s" using a by (rule update_triv)
  moreover have "(m_records s)(e \<mapsto> r) = m_records s" using r by (rule map_upd_triv)
  ultimately show ?thesis using r k a by (simp add: rotated_def records_at_def)
qed

lemma send_to_back_eq:
  assumes wf: "registry_ok s" and r: "m_records s e = Some r" and k: "arch r = Some k"
  shows "send_to_back e s = Inr (rotated e s)"
proof -
  from wf_recD [OF wf r k] obtain a where
    a: "map_of (m_map s) k = Some a" and i: "index r < length (m_entities a)"
    and ei: "m_entities a ! index r = e"
    and len: "\<And>g c. m_arrays a g = Some c \<Longrightarrow> length c = length (m_entities a)"
    by blast
  show ?thesis
  proof (cases "is_last a (index r)")
    case True
    then show ?thesis using rotated_last [OF wf r k a True] r k a by (simp add: send_to_back_def)
  next
    case False
    from wf_last_rec [OF wf a i] obtain rd where
      rd: "m_records s (last (m_entities a)) = Some rd" "arch rd = Some k"
      by blast
    show ?thesis
      using False r k a rd swap_back_eq [OF i len]
      by (simp add: send_to_back_def rotated_def records_at_def)
  qed
qed

lemma rotated_facts:
  assumes wf: "registry_ok s" and r: "m_records s e = Some r" and k: "arch r = Some k"
    and a: "map_of (m_map s) k = Some a"
  shows "m_records (rotated e s) e = Some r"
    "map_of (m_map (rotated e s)) = (map_of (m_map s))(k \<mapsto> rotate_row a (index r))"
    "m_map (rotated e s) = AList.update k (rotate_row a (index r)) (m_map s)"
    "m_records (rotated e s) = (m_records s)(last (m_entities a) \<mapsto>
                      (records_at (m_records s) (last (m_entities a)))\<lparr>index := index r\<rparr>)"
    "m_next_id (rotated e s) = m_next_id s" "m_id (rotated e s) = m_id s"
proof -
  from wf_recD [OF wf r k] a have
    i: "index r < length (m_entities a)" and ei: "m_entities a ! index r = e"
    by auto
  show "m_records (rotated e s) e = Some r"
  proof (cases "is_last a (index r)")
    case True
    then show ?thesis using rotated_last [OF wf r k a] r by simp
  next
    case False
    from wf_last_rec [OF wf a i] obtain rd where
      rd: "m_records s (last (m_entities a)) = Some rd" "index rd = length (m_entities a) - 1"
      by blast
    have "last (m_entities a) \<noteq> e" using rd r False i by (auto simp: is_last_def)
    then show ?thesis using r k a by (simp add: rotated_def)
  qed
  show "map_of (m_map (rotated e s)) = (map_of (m_map s))(k \<mapsto> rotate_row a (index r))"
    "m_map (rotated e s) = AList.update k (rotate_row a (index r)) (m_map s)"
    "m_records (rotated e s) = (m_records s)(last (m_entities a) \<mapsto>
                      (records_at (m_records s) (last (m_entities a)))\<lparr>index := index r\<rparr>)"
    "m_next_id (rotated e s) = m_next_id s" "m_id (rotated e s) = m_id s"
    using r k a by (simp_all add: rotated_def update_conv')
qed

lemma take_out_rotated:
  assumes r: "m_records s e = Some r" and k: "arch r = Some k"
    and a: "map_of (m_map s) k = Some a"
  shows "(rotated e s)\<lparr>m_map := AList.update k (remove_row a (index r)) (m_map (rotated e s)),
           m_records := (m_records (rotated e s))(e := ro)\<rparr> = take_out e ro s"
  using r k a by (simp add: rotated_def take_out_def)

lemma migrate_to_eq:
  assumes wf: "registry_ok s" and r: "m_records s e = Some r" and k: "arch r = Some k"
    and a: "map_of (m_map s) k = Some a"
    and out: "out = None \<or> (\<exists>kb b. out = Some kb \<and> kb \<noteq> k \<and> map_of (m_map s) kb = Some b)"
  shows "migrate_to e out s =
     Inr (case out of
            None \<Rightarrow> take_out e (Some (r\<lparr>arch := None\<rparr>)) s
          | Some kb \<Rightarrow>
              (take_out e (Some (r\<lparr>arch := Some kb\<rparr>)) s)\<lparr>m_map :=
                 AList.update kb (receive_row (the (map_of (m_map s) kb)) e a (index r))
                   (m_map (take_out e (Some (r\<lparr>arch := Some kb\<rparr>)) s))\<rparr>)"
proof -
  from wf_recD [OF wf r k] a have
    i: "index r < length (m_entities a)" and ei: "m_entities a ! index r = e"
    and len: "\<And>g c. m_arrays a g = Some c \<Longrightarrow> length c = length (m_entities a)"
    by auto
  note rf = rotated_facts [OF wf r k a]
  note mb = migrate_back_rotate_eq [OF i len]
  show ?thesis
  proof (cases out)
    case None
    show ?thesis
      using rf(1,2) k
      by (simp add: migrate_to_def send_to_back_eq [OF wf r k] None mb ei
          take_out_rotated [OF r k a])
  next
    case (Some kb)
    with out obtain b where b: "kb \<noteq> k" "map_of (m_map s) kb = Some b" by auto
    have "(rotated e s)\<lparr>m_map := AList.update kb (receive_row b e a (index r))
              (AList.update k (remove_row a (index r)) (m_map (rotated e s))),
            m_records := (m_records (rotated e s))(e \<mapsto> r\<lparr>arch := Some kb\<rparr>)\<rparr>
        = (take_out e (Some (r\<lparr>arch := Some kb\<rparr>)) s)\<lparr>m_map :=
                 AList.update kb (receive_row b e a (index r))
                   (m_map (take_out e (Some (r\<lparr>arch := Some kb\<rparr>)) s))\<rparr>"
      unfolding take_out_rotated [OF r k a, symmetric] by simp
    then show ?thesis
      using rf(1,2) k b
      by (simp add: migrate_to_def send_to_back_eq [OF wf r k] Some mb ei)
  qed
qed

lemma destroy_eq:
  assumes wf: "registry_ok s"
  shows "destroy e s = Inr (contains s e, take_out e None s)"
proof (cases "m_records s e")
  case None
  then show ?thesis by (simp add: destroy_def contains_def take_out_def)
next
  case (Some r)
  show ?thesis
  proof (cases "arch r")
    case None
    then show ?thesis using Some by (simp add: destroy_def contains_def take_out_def)
  next
    case k: (Some k)
    from wf_recD [OF wf Some k] obtain a where a: "map_of (m_map s) k = Some a" by blast
    have "migrate_to e None s = Inr (take_out e (Some (r\<lparr>arch := None\<rparr>)) s)"
      using migrate_to_eq [OF wf Some k a, of None] by simp
    moreover have "(take_out e (Some (r\<lparr>arch := None\<rparr>)) s)\<lparr>m_records :=
        (m_records (take_out e (Some (r\<lparr>arch := None\<rparr>)) s))(e := None)\<rparr> = take_out e None s"
      using Some k a by (simp add: take_out_def)
    ultimately show ?thesis using Some k by (simp add: destroy_def contains_def)
  qed
qed

lemma take_out_records_e:
  assumes "registry_ok s" "m_records s e = Some r"
  shows "m_records (take_out e ro s) e = ro"
proof (cases "arch r")
  case None
  then show ?thesis using assms by (simp add: take_out_def)
next
  case (Some k)
  from wf_recD [OF assms Some] obtain a where "map_of (m_map s) k = Some a" by blast
  then show ?thesis using assms Some by (simp add: take_out_def)
qed

lemma attach_fresh_eq:
  assumes wf: "registry_ok s" and pre: "null_id < eid e" "registry_id e = m_id s"
    and e: "m_records s e = None \<or> (\<exists>r. m_records s e = Some r \<and> arch r = None)"
  shows "attach g e t s =
     Inr (t, put_in e [g] (\<lambda>_. t) (records_at (m_records s) e) (with_arch [g] s))"
proof -
  define r0 where "r0 = records_at (m_records s) e"
  define s0 where "s0 = get_or_make_record e s"
  have r0: "records_at (m_records s0) e = r0" "arch r0 = None"
    using e by (auto simp: r0_def s0_def get_or_make_record_def records_at_def record_default_def)
  have s0: "m_map s0 = m_map s" "s0\<lparr>m_map := m, m_records := (m_records s0)(e \<mapsto> x)\<rparr>
      = s\<lparr>m_map := m, m_records := (m_records s)(e \<mapsto> x)\<rparr>" for m x
    using e by (auto simp: s0_def get_or_make_record_def)
  have id: "make_id [g] = [g]" by (simp add: make_id_def)
  from wf_with_arch [OF wf, of "[g]"] have wfw: "registry_ok (with_arch [g] s)" .
  obtain b where b: "map_of (m_map (with_arch [g] s)) [g] = Some b"
    by (cases "map_of (m_map s) [g]") (auto simp: with_arch_def update_conv')
  note bf = wf_archD [OF wfw b]
  from bf(2) obtain col where col: "m_arrays b g = Some col" by auto
  have lc: "length col = length (m_entities b)" using bf(3) col by simp
  have ar: "(m_arrays b)(g \<mapsto> col @ [t]) = (\<lambda>g'. map_option (\<lambda>c. c @ [t]) (m_arrays b g'))"
  proof
    fix g' show "((m_arrays b)(g \<mapsto> col @ [t])) g' = map_option (\<lambda>c. c @ [t]) (m_arrays b g')"
      using bf(2) col by (cases "m_arrays b g'") (auto simp: dom_def)
  qed
  have gm: "get_or_make (m_map s) [g] = (m_map (with_arch [g] s), [g])"
    by (simp add: get_or_make_def id with_arch_def Let_def)
  have "attach_push g e t (s\<lparr>m_map := AList.update [g] (push_back b e) (m_map (with_arch [g] s)),
            m_records := (m_records s)(e \<mapsto> r0\<lparr>arch := Some [g]\<rparr>)\<rparr>)
      = Inr (t, put_in e [g] (\<lambda>_. t) r0 (with_arch [g] s))"
    using b col lc
    by (simp add: attach_push_def update_conv' emplace_back_def push_back_def arch_size_def
        put_in_def add_row_def ar with_arch_def)
  then show ?thesis
    using pre r0 b
    by (simp add: attach_def Let_def s0_def [symmetric] gm s0 r0_def [symmetric])
qed

lemma attach_overwrite_eq:
  assumes pre: "null_id < eid e" "registry_id e = m_id s"
    and r: "m_records s e = Some r" and k: "arch r = Some k"
    and a: "map_of (m_map s) k = Some a" and col: "m_arrays a g = Some col"
    and i: "index r < length col"
  shows "attach g e t s =
     Inr (t, s\<lparr>m_map := AList.update k (a\<lparr>m_arrays := (m_arrays a)(g \<mapsto> col[index r := t])\<rparr>) (m_map s)\<rparr>)"
proof -
  have "get_or_make_record e s = s" using r by (simp add: get_or_make_record_def)
  then show ?thesis
    using pre r k a col i by (simp add: attach_def Let_def records_at_def find_array_def)
qed

lemma wf_overwrite:
  assumes wf: "registry_ok s" and a: "map_of (m_map s) k = Some a" and col: "m_arrays a g = Some col"
  shows "registry_ok (s\<lparr>m_map := AList.update k (a\<lparr>m_arrays := (m_arrays a)(g \<mapsto> col[i := t])\<rparr>) (m_map s)\<rparr>)"
proof -
  define a' where "a' = a\<lparr>m_arrays := (m_arrays a)(g \<mapsto> col[i := t])\<rparr>"
  define s' where "s' = s\<lparr>m_map := AList.update k a' (m_map s)\<rparr>"
  have mp: "map_of (m_map s') = (map_of (m_map s))(k \<mapsto> a')"
    by (simp add: s'_def update_conv')
  have rc: "m_records s' = m_records s" by (simp add: s'_def)
  have ent: "m_entities a' = m_entities a" by (simp add: a'_def)
  have same: "\<exists>a0. map_of (m_map s) k2 = Some a0 \<and> m_entities a2 = m_entities a0"
    if "map_of (m_map s') k2 = Some a2" for k2 a2
    using that a by (cases "k2 = k") (auto simp: mp a'_def)
  have keys: "distinct (map fst (m_map s'))"
    using wf by (simp add: s'_def registry_ok_def inv_map_def distinct_update)
  have "inv_map s'"
    unfolding inv_map_def using keys wf_archD(1,2) [OF wf] wf_archD(1,2) [OF wf a] col
    by (auto simp: mp a'_def dom_def split: if_splits)
  moreover have "inv_I1 s'"
    unfolding inv_I1_def using wf_archD(3) [OF wf] a col
    by (auto simp: mp a'_def split: if_splits)
  moreover have "inv_I2 s'"
    unfolding inv_I2_def
  proof (intro allI impI)
    fix e2 r2 k2 assume h: "m_records s' e2 = Some r2" "arch r2 = Some k2"
    from wf_recD [OF wf h(1) [unfolded rc] h(2)] obtain a2 where
      a2: "map_of (m_map s) k2 = Some a2" "index r2 < length (m_entities a2)"
        "m_entities a2 ! index r2 = e2" by blast
    then show "\<exists>a. map_of (m_map s') k2 = Some a \<and> index r2 < length (m_entities a) \<and>
          m_entities a ! index r2 = e2"
      using a by (cases "k2 = k") (auto simp: mp a'_def)
  qed
  moreover have "inv_I3 s'"
    unfolding inv_I3_def
  proof (intro allI impI)
    fix k2 a2 j assume h: "map_of (m_map s') k2 = Some a2" "j < length (m_entities a2)"
    from same [OF h(1)] obtain a0 where a0: "map_of (m_map s) k2 = Some a0"
      "m_entities a2 = m_entities a0" by blast
    from wf_entD [OF wf a0(1), of j] h(2) a0(2)
    show "\<exists>r. m_records s' (m_entities a2 ! j) = Some r \<and> arch r = Some k2 \<and> index r = j"
      by (auto simp: rc)
  qed
  moreover have "finite (dom (m_records s'))" using wf by (simp add: rc registry_ok_def)
  ultimately show ?thesis unfolding registry_ok_def s'_def a'_def by blast
qed

lemma id_insert_set: "set (id_insert g k) = insert g (set k)"
  by (auto simp: id_insert_def set_insort_key)

lemma id_insert_neq: "g \<notin> set k \<Longrightarrow> id_insert g k \<noteq> k"
  using id_insert_set [of g k] by auto

lemma attach_migrate_eq:
  assumes wf: "registry_ok s" and pre: "null_id < eid e" "registry_id e = m_id s"
    and r: "m_records s e = Some r" and k: "arch r = Some k"
    and a: "map_of (m_map s) k = Some a" and g: "g \<notin> set k"
  shows "attach g e t s =
     Inr (t, put_in e (id_insert g k) (\<lambda>g'. if g' = g then t else the (m_arrays a g') ! index r) r
               (take_out e (Some (r\<lparr>arch := None\<rparr>)) (with_arch (id_insert g k) s)))"
proof -
  define kb where "kb = id_insert g k"
  define sw where "sw = with_arch kb s"
  define vals where "vals = (\<lambda>g'. if g' = g then t else the (m_arrays a g') ! index r)"
  have kbk: "kb \<noteq> k" using g by (simp add: kb_def id_insert_neq)
  note af = wf_archD [OF wf a]
  have ag: "m_arrays a g = None" using af(2) g by auto
  have s0: "get_or_make_record e s = s" using r by (simp add: get_or_make_record_def)
  have wfw: "registry_ok sw" unfolding sw_def by (rule wf_with_arch [OF wf])
  have rw: "m_records sw e = Some r" using r by (simp add: sw_def with_arch_def)
  have aw: "map_of (m_map sw) k = Some a"
    using a kbk by (auto simp: sw_def with_arch_def update_conv')
  obtain b where b: "map_of (m_map sw) kb = Some b"
    by (cases "map_of (m_map s) kb") (auto simp: sw_def with_arch_def update_conv')
  note bf = wf_archD [OF wfw b]
  have ca: "copy_append (m_map s) a g = (m_map sw, kb)"
    by (simp add: copy_append_def af(1) kb_def sw_def with_arch_def Let_def)
  have sw': "s\<lparr>m_map := m_map sw\<rparr> = sw" by (simp add: sw_def with_arch_def)
  define X where "X = (take_out e (Some (r\<lparr>arch := Some kb\<rparr>)) sw)\<lparr>m_map :=
                 AList.update kb (receive_row b e a (index r))
                   (m_map (take_out e (Some (r\<lparr>arch := Some kb\<rparr>)) sw))\<rparr>"
  have mig: "migrate_to e (Some kb) sw = Inr X"
    using migrate_to_eq [OF wfw rw k aw, of "Some kb"] kbk b by (simp add: X_def)
  have gb: "g \<in> dom (m_arrays b)" using bf(2) by (simp add: kb_def id_insert_set)
  then obtain oc where oc: "m_arrays b g = Some oc" by auto
  have loc: "length oc = length (m_entities b)" using bf(3) oc by simp
  have ar: "(m_arrays (receive_row b e a (index r)))(g \<mapsto> oc @ [t])
      = (\<lambda>g'. map_option (\<lambda>c. c @ [vals g']) (m_arrays b g'))"
  proof
    fix g'
    show "((m_arrays (receive_row b e a (index r)))(g \<mapsto> oc @ [t])) g'
        = map_option (\<lambda>c. c @ [vals g']) (m_arrays b g')"
    proof (cases "g' = g")
      case True
      then show ?thesis using oc by (simp add: vals_def)
    next
      case False
      show ?thesis
      proof (cases "m_arrays b g'")
        case None
        then show ?thesis using False by (simp add: receive_row_def)
      next
        case (Some c)
        then have "g' \<in> set kb" using bf(2) by auto
        then have "g' \<in> set k" using False by (simp add: kb_def id_insert_set)
        then obtain c' where "m_arrays a g' = Some c'" using af(2) by auto
        then show ?thesis using False Some by (simp add: receive_row_def vals_def)
      qed
    qed
  qed
  have Xr: "m_records X e = Some (r\<lparr>arch := Some kb\<rparr>)"
    using take_out_records_e [OF wfw rw] by (simp add: X_def)
  have Xm: "map_of (m_map X) kb = Some (receive_row b e a (index r))"
    by (simp add: X_def update_conv')
  have Tm: "map_of (m_map (take_out e (Some (r\<lparr>arch := None\<rparr>)) sw)) kb = Some b"
    using rw k aw b kbk by (simp add: take_out_def update_conv')
  have fin: "X\<lparr>m_map := AList.update kb ((receive_row b e a (index r))\<lparr>m_arrays :=
                 (m_arrays (receive_row b e a (index r)))(g \<mapsto> oc @ [t])\<rparr>) (m_map X),
               m_records := (m_records X)(e \<mapsto> r\<lparr>arch := Some kb, index := length oc\<rparr>)\<rparr>
      = put_in e kb vals r (take_out e (Some (r\<lparr>arch := None\<rparr>)) sw)"
    unfolding put_in_def Tm option.case ar
    using rw k aw by (simp add: X_def take_out_def add_row_def receive_row_def loc)
  have "attach_push g e t X = Inr (t, put_in e kb vals r (take_out e (Some (r\<lparr>arch := None\<rparr>)) sw))"
    using oc ag loc
    by (simp add: attach_push_def Xr Xm emplace_back_def receive_row_def arch_size_def
        fin [symmetric])
  then show ?thesis
    using pre r k a ag
    by (simp add: attach_def Let_def s0 records_at_def find_array_def ca sw' mig
        kb_def [symmetric] vals_def [symmetric] sw_def [symmetric])
qed

lemma make_id_set: "set (make_id sigs) = set sigs"
  by (simp add: make_id_def)

lemma id_remove_set: "set (id_remove g k) = set k - {g}"
  by (simp add: id_remove_def)

lemma id_remove_same: "id_remove g k = k \<longleftrightarrow> g \<notin> set k"
proof
  assume "id_remove g k = k"
  then have "set k - {g} = set k" using id_remove_set [of g k] by simp
  then show "g \<notin> set k" by auto
next
  assume "g \<notin> set k" then show "id_remove g k = k" by (simp add: id_remove_def)
qed

lemma do_detach_rotate:
  assumes wf: "registry_ok s" and r: "m_records s e = Some r" and k: "arch r = Some k"
    and a: "map_of (m_map s) k = Some a"
  shows "(if \<not> is_last a (index r)
          then bind_res (swap_back a (index r)) (\<lambda>(swapped, a').
                 Inr (a', (m_records s)(swapped \<mapsto>
                        (records_at (m_records s) swapped)\<lparr>index := index r\<rparr>)))
          else Inr (a, m_records s))
       = Inr (rotate_row a (index r), m_records (rotated e s))"
proof -
  from wf_recD [OF wf r k] a have
    i: "index r < length (m_entities a)"
    and len: "\<And>g c. m_arrays a g = Some c \<Longrightarrow> length c = length (m_entities a)"
    by auto
  show ?thesis
  proof (cases "is_last a (index r)")
    case True
    then have "Suc (index r) = length (m_entities a)" by (simp add: is_last_def)
    from rotate_last [OF this len] rotated_last [OF wf r k a True] True
    show ?thesis by simp
  next
    case False
    then show ?thesis
      using swap_back_eq [OF i len] rotated_facts(4) [OF wf r k a] by simp
  qed
qed

lemma do_detach_single_eq:
  assumes wf: "registry_ok s" and rid: "registry_id e = m_id s"
    and r: "m_records s e = Some r" and k: "arch r = Some k" and one: "length k = 1"
  shows "do_detach g e s = Inr (True, take_out e (Some record_default) s)"
proof -
  from wf_recD [OF wf r k] obtain a where
    a: "map_of (m_map s) k = Some a" and i: "index r < length (m_entities a)"
    and ty: "types a = k"
    and len: "\<And>g c. m_arrays a g = Some c \<Longrightarrow> length c = length (m_entities a)"
    by blast
  have "s\<lparr>m_map := AList.update k (remove_row a (index r)) (m_map s),
          m_records := (m_records (rotated e s))(e \<mapsto> record_default)\<rparr>
      = take_out e (Some record_default) s"
    using r k a by (simp add: rotated_facts(4) [OF wf r k a] take_out_def)
  then show ?thesis
    using rid r k a one ty pop_back_rotate_eq [OF i len]
    by (simp add: do_detach_def do_detach_rotate [OF wf r k a] rotate_row_def)
qed

lemma types_rotate [simp]: "types (rotate_row a i) = types a"
  by (simp add: rotate_row_def)

lemma do_detach_absent:
  assumes wf: "registry_ok s" and rid: "registry_id e = m_id s"
    and r: "m_records s e = Some r" and k: "arch r = Some k" and many: "length k \<noteq> 1"
    and g: "g \<notin> set k"
  shows "do_detach g e s = Inl AssertionFailed"
proof -
  from wf_recD [OF wf r k] obtain a where
    a: "map_of (m_map s) k = Some a" and ty: "types a = k"
    by blast
  show ?thesis
    using rid r k a many ty g
    by (simp add: do_detach_def do_detach_rotate [OF wf r k a] id_remove_same)
qed

lemma do_detach_multi_eq:
  assumes wf: "registry_ok s" and rid: "registry_id e = m_id s"
    and r: "m_records s e = Some r" and k: "arch r = Some k" and many: "length k \<noteq> 1"
    and a: "map_of (m_map s) k = Some a" and g: "g \<in> set k"
  shows "do_detach g e s =
     Inr (True, put_in e (make_id (id_remove g k)) (\<lambda>g'. the (m_arrays a g') ! index r) r
                  (with_arch (make_id (id_remove g k)) (take_out e (Some (r\<lparr>arch := None\<rparr>)) s)))"
proof -
  define kt where "kt = make_id (id_remove g k)"
  define i where "i = index r"
  define T where "T = take_out e (Some (r\<lparr>arch := None\<rparr>)) s"
  define vals where "vals = (\<lambda>g'. the (m_arrays a g') ! i)"
  from wf_recD [OF wf r k] a have
    il: "i < length (m_entities a)" and ei: "m_entities a ! i = e"
    and ty: "types a = k" and dm: "dom (m_arrays a) = set k"
    and len: "\<And>g c. m_arrays a g = Some c \<Longrightarrow> length c = length (m_entities a)"
    by (auto simp: i_def)
  have skt: "set kt = set k - {g}" by (simp add: kt_def make_id_set id_remove_set)
  have ktk: "kt \<noteq> k" using g skt by auto
  have kin: "k \<in> fst ` set (m_map s)" using a by (rule map_of_dom_fst)
  have wfT: "registry_ok T" unfolding T_def by (rule wf_take_out [OF wf]) simp
  have Tm: "m_map T = AList.update k (remove_row a i) (m_map s)"
    using r k a by (simp add: T_def take_out_def i_def)
  have Tr: "m_records T = (m_records (rotated e s))(e \<mapsto> r\<lparr>arch := None\<rparr>)"
    using r k a by (simp add: T_def take_out_def rotated_facts(4) [OF wf r k a])
  have wfW: "registry_ok (with_arch kt T)" by (rule wf_with_arch [OF wfT])
  obtain b where b: "map_of (m_map (with_arch kt T)) kt = Some b"
    by (cases "map_of (m_map T) kt") (auto simp: with_arch_def update_conv')
  note bf = wf_archD [OF wfW b]
  define m1 where "m1 = (if map_of (m_map s) kt = None
      then AList.update kt (new_archetype kt) (AList.update k (rotate_row a i) (m_map s))
      else AList.update k (rotate_row a i) (m_map s))"
  have gm: "get_or_make (AList.update k (rotate_row a i) (m_map s)) (id_remove g k) = (m1, kt)"
    using ktk by (simp add: get_or_make_def Let_def kt_def [symmetric] m1_def update_conv')
  have m1b: "map_of m1 kt = Some b"
    using b ktk by (auto simp: m1_def with_arch_def Tm update_conv' split: if_splits)
  have m1k: "AList.update k (remove_row a i) m1 = m_map (with_arch kt T)"
  proof (cases "map_of (m_map s) kt")
    case None
    have "k \<in> fst ` set (AList.update k (rotate_row a i) (m_map s))"
      by (simp add: AList.dom_update)
    from update_commute [OF this ktk [symmetric], of "remove_row a i" "new_archetype kt"]
    show ?thesis using None ktk by (simp add: m1_def with_arch_def Tm update_conv')
  next
    case (Some b0)
    then show ?thesis using ktk by (simp add: m1_def with_arch_def Tm update_conv')
  qed
  have rr: "receive_row b e a i = add_row b e vals"
  proof -
    have "(case m_arrays b g' of None \<Rightarrow> None
           | Some oc \<Rightarrow> (case m_arrays a g' of None \<Rightarrow> Some oc | Some c \<Rightarrow> Some (oc @ [c ! i])))
        = map_option (\<lambda>c. c @ [vals g']) (m_arrays b g')" for g'
    proof (cases "m_arrays b g'")
      case None
      then show ?thesis by simp
    next
      case (Some oc)
      then have "g' \<in> set kt" using bf(2) by auto
      then have "g' \<in> dom (m_arrays a)" using skt dm by auto
      then show ?thesis using Some by (auto simp: vals_def)
    qed
    then show ?thesis by (simp add: receive_row_def add_row_def)
  qed
  have mb: "migrate_back (rotate_row a i) (Some b) = Inr (e, remove_row a i, Some (add_row b e vals))"
    using migrate_back_rotate_eq [OF il len, where out = "Some b"] by (simp add: ei rr)
  have re: "records_at (m_records (rotated e s)) e = r"
    using rotated_facts(1) [OF wf r k a] by (simp add: records_at_def)
  have fin: "s\<lparr>m_map := AList.update kt (add_row b e vals) (AList.update k (remove_row a i) m1),
          m_records := (m_records (rotated e s))(e \<mapsto> r\<lparr>arch := Some kt,
             index := arch_size (add_row b e vals) - 1\<rparr>)\<rparr>
      = put_in e kt vals r (with_arch kt T)"
    unfolding put_in_def b option.case m1k
    by (simp add: with_arch_def arch_size_def add_row_def T_def take_out_def r k a
        rotated_facts(4) [OF wf r k a] i_def)
  show ?thesis
    using rid r k a many ty g ktk fin [unfolded i_def]
    by (simp add: do_detach_def do_detach_rotate [OF wf r k a] id_remove_same
        gm [unfolded i_def] m1b mb [unfolded i_def] re
        add_row_def [of b, THEN arg_cong [of _ _ m_entities]]
        kt_def [symmetric] vals_def [unfolded i_def, symmetric] T_def [symmetric])
qed

definition emplaced ::
  "(sign_t \<Rightarrow> 'v) \<Rightarrow> entity \<Rightarrow> sign_t list \<Rightarrow> sign_t list \<Rightarrow> nat \<Rightarrow> 'v archetype
     \<Rightarrow> 'v registry \<Rightarrow> 'v registry" where
  "emplaced dflt e k gs n a s =
     s\<lparr>m_map := AList.update k
              (a\<lparr>m_arrays := (\<lambda>g'. if g' \<in> set gs
                                   then map_option (\<lambda>c. c @ [dflt g']) (m_arrays a g')
                                   else m_arrays a g')\<rparr>) (m_map s),
            m_records := (m_records s)(e \<mapsto>
               (records_at (m_records s) e)\<lparr>arch := Some k, index := n\<rparr>)\<rparr>"

lemma emplace_back_all_eq:
  assumes "map_of (m_map s) k = Some a" "distinct (g # gs)" "set (g # gs) \<subseteq> dom (m_arrays a)"
    "\<And>g' c. g' \<in> set (g # gs) \<Longrightarrow> m_arrays a g' = Some c \<Longrightarrow> length c = n"
  shows "emplace_back_all dflt e k (g # gs) s = Inr (emplaced dflt e k (g # gs) n a s)"
  using assms
proof (induction gs arbitrary: g s a)
  case Nil
  from Nil.prems obtain col where col: "m_arrays a g = Some col" by auto
  have n: "length col = n" using Nil.prems(4) col by simp
  have eq: "(\<lambda>g'. if g' \<in> set [g] then map_option (\<lambda>c. c @ [dflt g']) (m_arrays a g')
           else m_arrays a g')
      = (m_arrays a)(g \<mapsto> col @ [dflt g])"
    using col by auto
  show ?case
    unfolding emplaced_def eq
    using Nil.prems(1) col n by (simp add: emplace_back_record_def)
next
  case (Cons g2 gs)
  from Cons.prems obtain col where col: "m_arrays a g = Some col" by auto
  define a1 where "a1 = a\<lparr>m_arrays := (m_arrays a)(g \<mapsto> col @ [dflt g])\<rparr>"
  define R1 where "R1 = (records_at (m_records s) e)\<lparr>arch := Some k, index := length col\<rparr>"
  define s1 where "s1 = s\<lparr>m_map := AList.update k a1 (m_map s),
     m_records := (m_records s)(e \<mapsto> R1)\<rparr>"
  have step: "emplace_back_record dflt e k g s = Inr s1"
    using Cons.prems(1) col by (simp add: emplace_back_record_def s1_def a1_def R1_def)
  have p1: "map_of (m_map s1) k = Some a1" by (simp add: s1_def update_conv')
  have p2: "distinct (g2 # gs)" using Cons.prems(2) by simp
  have p3: "set (g2 # gs) \<subseteq> dom (m_arrays a1)" using Cons.prems(3) by (auto simp: a1_def)
  have p4: "length c = n" if "g' \<in> set (g2 # gs)" "m_arrays a1 g' = Some c" for g' c
  proof -
    have "g' \<noteq> g" using that(1) Cons.prems(2) by auto
    then have "m_arrays a g' = Some c" using that(2) by (simp add: a1_def)
    then show ?thesis using Cons.prems(4) [of g' c] that(1) by simp
  qed
  have fe: "(\<lambda>g'. if g' \<in> set (g2 # gs) then map_option (\<lambda>c. c @ [dflt g']) (m_arrays a1 g')
                 else m_arrays a1 g')
      = (\<lambda>g'. if g' \<in> set (g # g2 # gs) then map_option (\<lambda>c. c @ [dflt g']) (m_arrays a g')
                 else m_arrays a g')"
    using Cons.prems(2) col by (auto simp: a1_def fun_eq_iff)
  have re: "(records_at (m_records s1) e)\<lparr>arch := Some k, index := n\<rparr>
      = (records_at (m_records s) e)\<lparr>arch := Some k, index := n\<rparr>"
    by (simp add: s1_def records_at_def R1_def)
  have "emplace_back_all dflt e k (g2 # gs) s1 = Inr (emplaced dflt e k (g2 # gs) n a1 s1)"
    by (rule Cons.IH [OF p1 p2 p3 p4])
  also have "emplaced dflt e k (g2 # gs) n a1 s1 = emplaced dflt e k (g # g2 # gs) n a s"
    unfolding emplaced_def fe re by (simp add: s1_def a1_def)
  finally show ?case using step by simp
qed

lemma wf_add_record:
  assumes wf: "registry_ok s" and e: "m_records s e = None" and r0: "arch r0 = None"
  shows "registry_ok (s\<lparr>m_next_id := c, m_records := (m_records s)(e \<mapsto> r0)\<rparr>)"
proof -
  define s' where "s' = s\<lparr>m_next_id := c, m_records := (m_records s)(e \<mapsto> r0)\<rparr>"
  have mp: "m_map s' = m_map s" and rc: "m_records s' = (m_records s)(e \<mapsto> r0)"
    by (simp_all add: s'_def)
  have notin: "m_entities a ! i \<noteq> e" if "map_of (m_map s) k = Some a" "i < length (m_entities a)" for k a i
    using wf_no_arch_not_in [OF wf that] e by simp
  have "inv_I2 s'"
    using wf r0 e unfolding registry_ok_def inv_I2_def mp rc by auto
  moreover have "inv_I3 s'"
    using wf notin unfolding registry_ok_def inv_I3_def mp rc by auto
  moreover have "inv_map s'" "inv_I1 s'"
    using wf unfolding registry_ok_def inv_map_def inv_I1_def mp by auto
  moreover have "finite (dom (m_records s'))"
    using wf unfolding rc registry_ok_def by auto
  ultimately show ?thesis unfolding registry_ok_def s'_def by blast
qed

lemma make_entity_eq:
  assumes wf: "registry_ok s" and d: "distinct sigs"
  shows "make_entity dflt sigs nm s =
     (let i = m_next_id s + 1;
          e = \<lparr>eid = i, registry_id = m_id s\<rparr>;
          s1 = s\<lparr>m_next_id := i,
                 m_records := (case m_records s e of
                    None \<Rightarrow> (m_records s)(e \<mapsto>
                       \<lparr>name = (if nm = [] then make_name i else nm), arch = None, index = 0\<rparr>)
                  | Some r \<Rightarrow> m_records s)\<rparr>
      in Inr (e, if sigs = [] then s1
                 else put_in e (make_id sigs) dflt (records_at (m_records s1) e)
                        (with_arch (make_id sigs) s1)))"
proof (cases sigs)
  case Nil
  then show ?thesis by (simp add: make_entity_def Let_def)
next
  case (Cons g gs)
  define i where "i = m_next_id s + 1"
  define e where "e = \<lparr>eid = i, registry_id = m_id s\<rparr>"
  define s1 where "s1 = s\<lparr>m_next_id := i,
                 m_records := (case m_records s e of
                    None \<Rightarrow> (m_records s)(e \<mapsto>
                       \<lparr>name = (if nm = [] then make_name i else nm), arch = None, index = 0\<rparr>)
                  | Some r \<Rightarrow> m_records s)\<rparr>"
  define k where "k = make_id sigs"
  define sw where "sw = with_arch k s1"
  have wfw0: "registry_ok (with_arch k s)" by (rule wf_with_arch [OF wf])
  have mw: "m_map sw = m_map (with_arch k s)" by (simp add: sw_def s1_def with_arch_def)
  obtain b where b: "map_of (m_map sw) k = Some b"
    by (cases "map_of (m_map s1) k") (auto simp: sw_def with_arch_def update_conv')
  note bf = wf_archD [OF wfw0 b [unfolded mw]]
  define n where "n = length (m_entities b)"
  define s2 where "s2 = s1\<lparr>m_map := AList.update k (push_back b e) (m_map sw)\<rparr>"
  have gm: "get_or_make (m_map s1) sigs = (m_map sw, k)"
    by (simp add: get_or_make_def Let_def k_def sw_def with_arch_def)
  have p1: "map_of (m_map s2) k = Some (push_back b e)" by (simp add: s2_def update_conv')
  have p3: "set (g # gs) \<subseteq> dom (m_arrays (push_back b e))"
    using bf(2) Cons by (simp add: push_back_def k_def make_id_set)
  have p4: "length c = n" if "m_arrays (push_back b e) g' = Some c" for g' c
    using that bf(3) by (simp add: push_back_def n_def)
  have ar: "(\<lambda>g'. if g' \<in> set (g # gs)
                  then map_option (\<lambda>c. c @ [dflt g']) (m_arrays (push_back b e) g')
                  else m_arrays (push_back b e) g')
      = (\<lambda>g'. map_option (\<lambda>c. c @ [dflt g']) (m_arrays b g'))"
  proof
    fix g'
    show "(if g' \<in> set (g # gs)
                  then map_option (\<lambda>c. c @ [dflt g']) (m_arrays (push_back b e) g')
                  else m_arrays (push_back b e) g') = map_option (\<lambda>c. c @ [dflt g']) (m_arrays b g')"
      using bf(2) Cons by (cases "m_arrays b g'") (auto simp: push_back_def k_def make_id_set)
  qed
  have "emplace_back_all dflt e k (g # gs) s2 = Inr (emplaced dflt e k (g # gs) n (push_back b e) s2)"
    using d Cons by (intro emplace_back_all_eq [OF p1 _ p3 p4]) auto
  also have "emplaced dflt e k (g # gs) n (push_back b e) s2
      = put_in e k dflt (records_at (m_records s1) e) sw"
    unfolding emplaced_def ar put_in_def b option.case
    by (simp add: s2_def sw_def with_arch_def add_row_def push_back_def n_def)
  finally have "emplace_back_all dflt e k sigs s2 =
      Inr (put_in e k dflt (records_at (m_records s1) e) sw)"
    using Cons by simp
  moreover have "sigs \<noteq> []" using Cons by simp
  ultimately show ?thesis
    unfolding make_entity_def Let_def i_def [symmetric] e_def [symmetric] s1_def [symmetric]
    using b
    by (simp add: gm k_def [symmetric] s2_def [symmetric] sw_def [symmetric])
qed

section \<open>Preservation of the invariants\<close>

lemma wf_make_entity:
  assumes wf: "registry_ok s" and d: "distinct sigs"
    and fresh: "m_records s \<lparr>eid = m_next_id s + 1, registry_id = m_id s\<rparr> = None"
    and run: "make_entity dflt sigs nm s = Inr (e, s')"
  shows "registry_ok s'"
proof -
  define e0 where "e0 = \<lparr>eid = m_next_id s + 1, registry_id = m_id s\<rparr>"
  define r0 where "r0 = \<lparr>name = (if nm = [] then make_name (m_next_id s + 1) else nm),
     arch = None, index = 0\<rparr>"
  define s1 where "s1 = s\<lparr>m_next_id := m_next_id s + 1, m_records := (m_records s)(e0 \<mapsto> r0)\<rparr>"
  have wf1: "registry_ok s1" unfolding s1_def using fresh
    by (intro wf_add_record [OF wf]) (simp_all add: e0_def r0_def)
  have fresh0: "m_records s e0 = None" using fresh by (simp add: e0_def)
  have "make_entity dflt sigs nm s = Inr (e0, if sigs = [] then s1
      else put_in e0 (make_id sigs) dflt (records_at (m_records s1) e0) (with_arch (make_id sigs) s1))"
    unfolding make_entity_eq [OF wf d] Let_def e0_def [symmetric]
    using fresh0 by (simp add: s1_def r0_def)
  with run have eq: "s' = (if sigs = [] then s1
      else put_in e0 (make_id sigs) dflt (records_at (m_records s1) e0) (with_arch (make_id sigs) s1))"
    by simp
  show ?thesis
  proof (cases "sigs = []")
    case True
    then show ?thesis using eq wf1 by simp
  next
    case False
    define k where "k = make_id sigs"
    have wfw: "registry_ok (with_arch k s1)" by (rule wf_with_arch [OF wf1])
    obtain b where b: "map_of (m_map (with_arch k s1)) k = Some b"
      by (cases "map_of (m_map s1) k") (auto simp: with_arch_def update_conv')
    have "m_records (with_arch k s1) e0 = Some r0" by (simp add: with_arch_def s1_def)
    then have "m_records (with_arch k s1) e0 = None \<or>
        (\<exists>r. m_records (with_arch k s1) e0 = Some r \<and> arch r = None)"
      by (simp add: r0_def)
    from wf_put_in [OF wfw this b] show ?thesis using eq False by (simp add: k_def)
  qed
qed

lemma wf_destroy:
  assumes "registry_ok s" "destroy e s = Inr (b, s')"
  shows "registry_ok s'"
  using assms wf_take_out [OF assms(1), of None e] by (simp add: destroy_eq)

lemma wf_rename:
  assumes wf: "registry_ok s"
  shows "registry_ok (snd (rename e nm s))"
proof (cases "m_records s e")
  case None
  then show ?thesis using wf by (simp add: rename_def)
next
  case (Some r)
  define s' where "s' = s\<lparr>m_records := (m_records s)(e \<mapsto> r\<lparr>name := nm\<rparr>)\<rparr>"
  have eq: "snd (rename e nm s) = s'" using Some by (simp add: rename_def s'_def)
  have mp: "m_map s' = m_map s" and rc: "m_records s' = (m_records s)(e \<mapsto> r\<lparr>name := nm\<rparr>)"
    by (simp_all add: s'_def)
  have "inv_I2 s'"
    using wf Some unfolding registry_ok_def inv_I2_def mp rc by auto
  moreover have "inv_I3 s'"
    unfolding inv_I3_def
  proof (intro allI impI)
    fix k a i assume h: "map_of (m_map s') k = Some a" "i < length (m_entities a)"
    from wf_entD [OF wf h(1) [unfolded mp] h(2)] obtain rj where
      rj: "m_records s (m_entities a ! i) = Some rj" "arch rj = Some k" "index rj = i" by blast
    show "\<exists>r. m_records s' (m_entities a ! i) = Some r \<and> arch r = Some k \<and> index r = i"
      using rj Some by (cases "m_entities a ! i = e") (auto simp: rc)
  qed
  moreover have "inv_map s'" "inv_I1 s'"
    using wf unfolding registry_ok_def inv_map_def inv_I1_def mp by auto
  moreover have "finite (dom (m_records s'))"
    using wf unfolding rc registry_ok_def by auto
  ultimately show ?thesis unfolding registry_ok_def eq by blast
qed

lemma wf_clear: "registry_ok (clear s)"
  by (simp add: registry_ok_def inv_map_def inv_I1_def inv_I2_def inv_I3_def clear_def)

lemma wf_attach:
  assumes wf: "registry_ok s" and run: "attach g e t s = Inr (v, s')"
  shows "registry_ok s'"
proof -
  have pre: "null_id < eid e" "registry_id e = m_id s"
    using run by (auto simp: attach_def split: if_splits)
  show ?thesis
  proof (cases "m_records s e = None \<or> (\<exists>r. m_records s e = Some r \<and> arch r = None)")
    case True
    have wfw: "registry_ok (with_arch [g] s)" by (rule wf_with_arch [OF wf])
    obtain b where b: "map_of (m_map (with_arch [g] s)) [g] = Some b"
      by (cases "map_of (m_map s) [g]") (auto simp: with_arch_def update_conv')
    have "m_records (with_arch [g] s) e = None \<or>
        (\<exists>r. m_records (with_arch [g] s) e = Some r \<and> arch r = None)"
      using True by (simp add: with_arch_def)
    from wf_put_in [OF wfw this b] show ?thesis
      using run unfolding attach_fresh_eq [OF wf pre True] by auto
  next
    case False
    then obtain r k where r: "m_records s e = Some r" and k: "arch r = Some k" by auto
    from wf_recD [OF wf r k] obtain a where
      a: "map_of (m_map s) k = Some a" and i: "index r < length (m_entities a)"
      and dm: "dom (m_arrays a) = set k"
      and len: "\<And>g c. m_arrays a g = Some c \<Longrightarrow> length c = length (m_entities a)"
      by blast
    show ?thesis
    proof (cases "g \<in> set k")
      case True
      then obtain col where col: "m_arrays a g = Some col" using dm by auto
      have "index r < length col" using len [OF col] i by simp
      from attach_overwrite_eq [OF pre r k a col this] run wf_overwrite [OF wf a col]
      show ?thesis by auto
    next
      case False
      define kb where "kb = id_insert g k"
      define T where "T = take_out e (Some (r\<lparr>arch := None\<rparr>)) (with_arch kb s)"
      have wfw: "registry_ok (with_arch kb s)" by (rule wf_with_arch [OF wf])
      have wfT: "registry_ok T" unfolding T_def by (rule wf_take_out [OF wfw]) simp
      have rw: "m_records (with_arch kb s) e = Some r" using r by (simp add: with_arch_def)
      have Tr: "m_records T e = Some (r\<lparr>arch := None\<rparr>)"
        unfolding T_def by (rule take_out_records_e [OF wfw rw])
      have kbk: "kb \<noteq> k" using False by (simp add: kb_def id_insert_neq)
      have aw: "map_of (m_map (with_arch kb s)) k = Some a"
        using a kbk by (auto simp: with_arch_def update_conv')
      obtain b where b: "map_of (m_map (with_arch kb s)) kb = Some b"
        by (cases "map_of (m_map s) kb") (auto simp: with_arch_def update_conv')
      have Tb: "map_of (m_map T) kb = Some b"
        using rw k aw b kbk by (simp add: T_def take_out_def update_conv')
      have "m_records T e = None \<or> (\<exists>r. m_records T e = Some r \<and> arch r = None)"
        using Tr by simp
      from wf_put_in [OF wfT this Tb] show ?thesis
        using run unfolding attach_migrate_eq [OF wf pre r k a False]
        by (auto simp: T_def kb_def)
    qed
  qed
qed

lemma wf_do_detach:
  assumes wf: "registry_ok s" and run: "do_detach g e s = Inr (b, s')"
  shows "registry_ok s'"
proof (cases "registry_id e = m_id s \<and> (\<exists>r k. m_records s e = Some r \<and> arch r = Some k)")
  case False
  then have "s' = s" using run by (auto simp: do_detach_def split: option.splits if_splits)
  then show ?thesis using wf by simp
next
  case True
  then obtain r k where rid: "registry_id e = m_id s" and r: "m_records s e = Some r"
    and k: "arch r = Some k" by auto
  from wf_recD [OF wf r k] obtain a where a: "map_of (m_map s) k = Some a" by blast
  show ?thesis
  proof (cases "length k = 1")
    case True
    from run wf_take_out [OF wf, of "Some record_default" e]
    show ?thesis unfolding do_detach_single_eq [OF wf rid r k True]
      by (auto simp: record_default_def)
  next
    case False
    show ?thesis
    proof (cases "g \<in> set k")
      case g: True
      define kt where "kt = make_id (id_remove g k)"
      define T where "T = take_out e (Some (r\<lparr>arch := None\<rparr>)) s"
      have wfT: "registry_ok T" unfolding T_def by (rule wf_take_out [OF wf]) simp
      have Tr: "m_records T e = Some (r\<lparr>arch := None\<rparr>)"
        unfolding T_def by (rule take_out_records_e [OF wf r])
      have wfw: "registry_ok (with_arch kt T)" by (rule wf_with_arch [OF wfT])
      obtain b0 where b0: "map_of (m_map (with_arch kt T)) kt = Some b0"
        by (cases "map_of (m_map T) kt") (auto simp: with_arch_def update_conv')
      have "m_records (with_arch kt T) e = None \<or>
          (\<exists>r. m_records (with_arch kt T) e = Some r \<and> arch r = None)"
        using Tr by (simp add: with_arch_def)
      from wf_put_in [OF wfw this b0] show ?thesis
        using run unfolding do_detach_multi_eq [OF wf rid r k False a g]
        by (auto simp: T_def kt_def)
    next
      case False
      then show ?thesis using run do_detach_absent [OF wf rid r k \<open>length k \<noteq> 1\<close>] by simp
    qed
  qed
qed

lemma wf_detach:
  "registry_ok s \<Longrightarrow> detach gs e s = Inr (b, s') \<Longrightarrow> registry_ok s'"
proof (induction gs arbitrary: s)
  case Nil
  then show ?case by simp
next
  case (Cons g gs)
  from Cons.prems(2) obtain b1 s1 where
    d: "do_detach g e s = Inr (b1, s1)" and rest: "if b1 then detach gs e s1 = Inr (b, s') else s' = s1"
    by (auto simp: bind_res_def split: sum.splits if_splits)
  have "registry_ok s1" by (rule wf_do_detach [OF Cons.prems(1) d])
  then show ?case using rest Cons.IH by (auto split: if_splits)
qed

section \<open>Issued handles\<close>

definition handles_issued :: "'v registry \<Rightarrow> bool" where
  "handles_issued s \<longleftrightarrow> (\<forall>e r. m_records s e = Some r \<longrightarrow>
     registry_id e = m_id s \<and> eid e \<noteq> 0 \<and> eid e \<le> m_next_id s)"

fun op_ok :: "'v registry \<Rightarrow> 'v op \<Rightarrow> bool" where
  "op_ok s (MakeEntity sigs nm) \<longleftrightarrow> distinct sigs \<and> m_next_id s + 1 \<noteq> 0"
| "op_ok s (Attach g e v) \<longleftrightarrow> eid e \<le> m_next_id s"
| "op_ok s x \<longleftrightarrow> True"

lemma take_out_frame:
  assumes wf: "registry_ok s"
  shows "dom (m_records (take_out e ro s)) \<subseteq> dom (m_records s)"
    "m_next_id (take_out e ro s) = m_next_id s" "m_id (take_out e ro s) = m_id s"
proof -
  show "m_next_id (take_out e ro s) = m_next_id s" "m_id (take_out e ro s) = m_id s"
    by (simp_all add: take_out_def split: option.split)
  show "dom (m_records (take_out e ro s)) \<subseteq> dom (m_records s)"
  proof (cases "m_records s e")
    case None
    then show ?thesis by (auto simp: take_out_def)
  next
    case (Some r)
    show ?thesis
    proof (cases "arch r")
      case None
      then show ?thesis using Some by (auto simp: take_out_def split: if_splits)
    next
      case k: (Some k)
      from wf_recD [OF wf Some k] obtain a where
        a: "map_of (m_map s) k = Some a" and i: "index r < length (m_entities a)" by blast
      from wf_last_rec [OF wf a i] obtain rd where
        "m_records s (last (m_entities a)) = Some rd" by blast
      then show ?thesis using Some k a by (auto simp: take_out_def split: if_splits)
    qed
  qed
qed

lemma put_in_frame:
  "dom (m_records (put_in e k vals r s)) \<subseteq> dom (m_records s) \<union> {e}"
  "m_next_id (put_in e k vals r s) = m_next_id s" "m_id (put_in e k vals r s) = m_id s"
  by (auto simp: put_in_def split: option.split if_splits)

lemma with_arch_frame [simp]:
  "m_records (with_arch k s) = m_records s"
  "m_next_id (with_arch k s) = m_next_id s" "m_id (with_arch k s) = m_id s"
  by (simp_all add: with_arch_def)

lemma handles_issuedI:
  assumes "handles_issued s" "dom (m_records s') \<subseteq> dom (m_records s) \<union> {e}"
    "m_id s' = m_id s" "m_next_id s \<le> m_next_id s'"
    "e \<in> dom (m_records s') \<Longrightarrow> registry_id e = m_id s \<and> eid e \<noteq> 0 \<and> eid e \<le> m_next_id s'"
  shows "handles_issued s'"
  unfolding handles_issued_def
proof (intro allI impI)
  fix e2 r2 assume h: "m_records s' e2 = Some r2"
  show "registry_id e2 = m_id s' \<and> eid e2 \<noteq> 0 \<and> eid e2 \<le> m_next_id s'"
  proof (cases "e2 = e")
    case True
    then show ?thesis using assms(3,5) h by auto
  next
    case False
    then have "e2 \<in> dom (m_records s)" using assms(2) h by auto
    then show ?thesis using assms(1,3,4) unfolding handles_issued_def by fastforce
  qed
qed

lemma issued_fresh:
  assumes "handles_issued s" "m_next_id s + 1 \<noteq> 0"
  shows "m_records s \<lparr>eid = m_next_id s + 1, registry_id = m_id s\<rparr> = None"
proof (rule ccontr)
  assume "m_records s \<lparr>eid = m_next_id s + 1, registry_id = m_id s\<rparr> \<noteq> None"
  then have "m_next_id s + 1 \<le> m_next_id s"
    using assms(1) unfolding handles_issued_def by fastforce
  then have "m_next_id s = - 1" by (simp add: inc_less_eq_self_iff_eq)
  then show False using assms(2) by simp
qed

lemma inc_no_wrap: "(c :: 64 word) + 1 \<noteq> 0 \<Longrightarrow> c \<le> c + 1 \<and> c + 1 \<noteq> 0"
  by (metis add.commute add_eq_0_iff2 inc_less_eq_self_iff_eq linorder_le_cases
      inc_less_eq_iff order_less_imp_le)

lemma handles_issued_mono:
  assumes "handles_issued s" "dom (m_records s') \<subseteq> dom (m_records s)"
    "m_id s' = m_id s" "m_next_id s' = m_next_id s"
  shows "handles_issued s'"
  using assms unfolding handles_issued_def by (metis domI domD subsetD)

lemma make_entity_dom:
  assumes wf: "registry_ok s" and d: "distinct sigs" and run: "make_entity dflt sigs nm s = Inr (e, s')"
  shows "dom (m_records s') \<subseteq> dom (m_records s) \<union> {e}"
proof -
  have "m_records (put_in e k vals r s0) x = m_records s0 x" if "x \<noteq> e"
    for k vals r x and s0 :: "'a registry"
    using that by (simp add: put_in_def split: option.split)
  then show ?thesis
    using run unfolding make_entity_eq [OF wf d] Let_def
    by (auto split: if_splits option.splits)
qed

lemma destroy_dom:
  assumes "registry_ok s" "destroy e s = Inr (b, s')"
  shows "dom (m_records s') \<subseteq> dom (m_records s)"
  using assms take_out_frame(1) [OF assms(1), of e None] by (simp add: destroy_eq)

lemma attach_dom:
  assumes wf: "registry_ok s" and run: "attach g e t s = Inr (v, s')"
  shows "dom (m_records s') \<subseteq> dom (m_records s) \<union> {e}"
proof -
  have pre: "null_id < eid e" "registry_id e = m_id s"
    using run by (auto simp: attach_def split: if_splits)
  show ?thesis
  proof (cases "m_records s e = None \<or> (\<exists>r. m_records s e = Some r \<and> arch r = None)")
    case True
    show ?thesis
      using run put_in_frame(1) [of e "[g]" "\<lambda>_. t" "records_at (m_records s) e" "with_arch [g] s"]
      unfolding attach_fresh_eq [OF wf pre True] by auto
  next
    case False
    then obtain r k where r: "m_records s e = Some r" and k: "arch r = Some k" by auto
    from wf_recD [OF wf r k] obtain a where
      a: "map_of (m_map s) k = Some a" and i: "index r < length (m_entities a)"
      and dm: "dom (m_arrays a) = set k"
      and len: "\<And>g c. m_arrays a g = Some c \<Longrightarrow> length c = length (m_entities a)"
      by blast
    show ?thesis
    proof (cases "g \<in> set k")
      case True
      then obtain col where col: "m_arrays a g = Some col" using dm by auto
      have "index r < length col" using len [OF col] i by simp
      from attach_overwrite_eq [OF pre r k a col this] run show ?thesis by auto
    next
      case False
      define T where "T = take_out e (Some (r\<lparr>arch := None\<rparr>)) (with_arch (id_insert g k) s)"
      have "dom (m_records T) \<subseteq> dom (m_records s)"
        using take_out_frame(1) [OF wf_with_arch [OF wf], of e _ "id_insert g k"]
        by (simp add: T_def)
      moreover obtain vals where "s' = put_in e (id_insert g k) vals r T"
        using run unfolding attach_migrate_eq [OF wf pre r k a False] T_def [symmetric]
        by auto
      then have "dom (m_records s') \<subseteq> dom (m_records T) \<union> {e}"
        using put_in_frame(1) by blast
      ultimately show ?thesis by blast
    qed
  qed
qed

lemma do_detach_dom:
  assumes wf: "registry_ok s" and run: "do_detach g e s = Inr (b, s')"
  shows "dom (m_records s') \<subseteq> dom (m_records s)"
proof (cases "registry_id e = m_id s \<and> (\<exists>r k. m_records s e = Some r \<and> arch r = Some k)")
  case False
  then have "s' = s" using run by (auto simp: do_detach_def split: option.splits if_splits)
  then show ?thesis by simp
next
  case True
  then obtain r k where rid: "registry_id e = m_id s" and r: "m_records s e = Some r"
    and k: "arch r = Some k" by auto
  from wf_recD [OF wf r k] obtain a where a: "map_of (m_map s) k = Some a" by blast
  have ed: "e \<in> dom (m_records s)" using r by auto
  show ?thesis
  proof (cases "length k = 1")
    case True
    from run take_out_frame(1) [OF wf, of e "Some record_default"]
    show ?thesis unfolding do_detach_single_eq [OF wf rid r k True] by auto
  next
    case False
    show ?thesis
    proof (cases "g \<in> set k")
      case g: True
      define kt where "kt = make_id (id_remove g k)"
      define T where "T = take_out e (Some (r\<lparr>arch := None\<rparr>)) s"
      have "dom (m_records (with_arch kt T)) \<subseteq> dom (m_records s)"
        using take_out_frame(1) [OF wf, of e] by (simp add: T_def)
      moreover obtain vals where "s' = put_in e kt vals r (with_arch kt T)"
        using run
        unfolding do_detach_multi_eq [OF wf rid r k False a g] T_def [symmetric] kt_def [symmetric]
        by auto
      then have "dom (m_records s') \<subseteq> dom (m_records (with_arch kt T)) \<union> {e}"
        using put_in_frame(1) by blast
      ultimately show ?thesis using ed by blast
    next
      case False
      then show ?thesis using run do_detach_absent [OF wf rid r k \<open>length k \<noteq> 1\<close>] by simp
    qed
  qed
qed

lemma detach_dom:
  "registry_ok s \<Longrightarrow> detach gs e s = Inr (b, s') \<Longrightarrow> dom (m_records s') \<subseteq> dom (m_records s)"
proof (induction gs arbitrary: s)
  case Nil
  then show ?case by simp
next
  case (Cons g gs)
  from Cons.prems(2) obtain b1 s1 where
    d: "do_detach g e s = Inr (b1, s1)" and rest: "if b1 then detach gs e s1 = Inr (b, s') else s' = s1"
    by (auto simp: bind_res_def split: sum.splits if_splits)
  have "registry_ok s1" by (rule wf_do_detach [OF Cons.prems(1) d])
  moreover have "dom (m_records s1) \<subseteq> dom (m_records s)" by (rule do_detach_dom [OF Cons.prems(1) d])
  ultimately show ?case using rest Cons.IH [of s1] by (auto split: if_splits)
qed

section \<open>Example registries\<close>

text \<open>Concrete registries for the closed instances below; \<open>two_in_one\<close> is the registry after
  two \<^verbatim>\<open>make_entity<T>()\<close> calls and two attaches.\<close>

definition dflt0 :: "sign_t \<Rightarrow> nat" where
  "dflt0 g = 0"

lemmas eval_defs = make_entity_def registry_new_def clear_def get_or_make_def make_id_def Let_def
  new_archetype_def push_back_def emplace_back_record_def records_at_def attach_def
  attach_push_def get_or_make_record_def record_default_def null_id_def find_array_def
  emplace_back_def arch_size_def copy_append_def id_insert_def migrate_to_def send_to_back_def
  is_last_def swap_back_def migrate_back_def columns_all_def swap_last_def do_detach_def
  pop_back_def id_remove_def destroy_def rename_def make_name_def s_name_prefix_def
  find_component_def name_of_def contains_def update_conv' dflt0_def to_string.simps
  attached_def all_attached_def has_all_def has_any_def get_def

definition ent :: "nat \<Rightarrow> entity" where
  "ent n = \<lparr>eid = of_nat n, registry_id = 1\<rparr>"

definition two_in_one :: "nat registry" where
  "two_in_one =
     \<lparr>m_map = [([1], \<lparr>types = [1], m_entities = [ent 1, ent 2], m_arrays = [1 \<mapsto> [10, 20]]\<rparr>)],
      m_records = [ent 1 \<mapsto> \<lparr>name = ''entity_1'', arch = Some [1], index = 0\<rparr>,
                   ent 2 \<mapsto> \<lparr>name = ''entity_2'', arch = Some [1], index = 1\<rparr>],
      m_next_id = 2, m_id = 1\<rparr>"

lemma wf_two_in_one: "registry_ok two_in_one"
  by (auto simp: registry_ok_def inv_map_def inv_I1_def inv_I2_def inv_I3_def two_in_one_def ent_def
      less_Suc_eq split: if_splits)

lemma handles_issued_two_in_one: "handles_issued two_in_one"
  by (auto simp: handles_issued_def two_in_one_def ent_def split: if_splits)

lemma two_in_one_reachable:
  "(case run dflt0 [MakeEntity [1] [], MakeEntity [1] [], Attach 1 (ent 1) 10, Attach 1 (ent 2) 20]
      (registry_new 0) of Inl x \<Rightarrow> False | Inr (es, s') \<Rightarrow> s' = two_in_one)"
  by (simp add: eval_defs ent_def two_in_one_def) (auto simp: fun_eq_iff)

section \<open>Claims\<close>

text \<open>
  C8. \<^verbatim>\<open>clear\<close> removes all records and all archetypes (the size becomes 0 and no entity is
  contained) and leaves the registry's id and the entity-id counter unchanged: the next
  \<^verbatim>\<open>make_entity\<close> after a \<^verbatim>\<open>clear\<close> returns the handle with the id after the last issued one.
  Along any sequence of public operations (with \<^verbatim>\<open>clear\<close> anywhere in it) the handles that
  \<^verbatim>\<open>make_entity\<close> issues are the consecutive ids after the counter, and they are pairwise
  distinct as long as fewer than \<open>2 ^ 64\<close> of them are issued (the counter is a 64-bit
  \<^verbatim>\<open>std::size_t\<close>).
\<close>

theorem clear_keeps_counters:
  "m_map (clear s) = [] \<and> m_records (clear s) = Map.empty \<and> size_registry (clear s) = 0 \<and>
   (\<forall>e. \<not> contains (clear s) e) \<and> m_id (clear s) = m_id s \<and> m_next_id (clear s) = m_next_id s \<and>
   (\<exists>s'. make_entity dflt sigs nm (clear s) = Inr (\<lparr>eid = m_next_id s + 1, registry_id = m_id s\<rparr>, s')) \<and>
   (\<forall>ops es s'. run dflt ops s = Inr (es, s') \<and> length es < 2 ^ 64 \<longrightarrow>
      distinct es \<and> es = map (\<lambda>j. \<lparr>eid = m_next_id s + of_nat (Suc j), registry_id = m_id s\<rparr>) [0..<length es])"
proof -
  have a: "distinct es \<and> es = map (\<lambda>j. \<lparr>eid = m_next_id s + of_nat (Suc j), registry_id = m_id s\<rparr>) [0..<length es]"
    if "run dflt ops s = Inr (es, s')" "length es < 2 ^ 64" for ops es s'
    using issued_distinct [OF that] run_issued [OF that(1)] unfolding handle_def by blast
  have b: "m_map (clear s) = [] \<and> m_records (clear s) = Map.empty \<and> size_registry (clear s) = 0 \<and>
   (\<forall>e. \<not> contains (clear s) e) \<and> m_id (clear s) = m_id s \<and> m_next_id (clear s) = m_next_id s"
    by (simp add: clear_def size_registry_def contains_def)
  show ?thesis
    using a b make_entity_clear [of dflt sigs nm s] by blast
qed

lemma run_example:
  "\<exists>s'. run dflt0 [MakeEntity [1] [], Clear, MakeEntity [] ''a''] (registry_new 0) =
     Inr ([\<lparr>eid = 1, registry_id = 1\<rparr>, \<lparr>eid = 2, registry_id = 1\<rparr>], s')"
  by (simp add: make_entity_def registry_new_def clear_def get_or_make_def make_id_def Let_def
      new_archetype_def push_back_def emplace_back_record_def records_at_def)

theorem clear_keeps_counters_witness:
  "(\<exists>s'. run dflt0 [MakeEntity [1] [], Clear, MakeEntity [] ''a''] (registry_new 0) =
      Inr ([\<lparr>eid = 1, registry_id = 1\<rparr>, \<lparr>eid = 2, registry_id = 1\<rparr>], s')) \<and>
   distinct [\<lparr>eid = 1, registry_id = 1\<rparr>, \<lparr>eid = 2 :: 64 word, registry_id = 1 :: 64 word\<rparr>] \<and>
   m_next_id (clear (registry_new 0 :: nat registry)) = 0 \<and>
   m_id (clear (registry_new 0 :: nat registry)) = 1"
  using clear_keeps_counters [of "registry_new 0 :: nat registry" dflt0 "[]" "[]"] run_example
  by (simp add: registry_new_def)

text \<open>
  C4. Invariant I2 (the entity stored at a record's row of the record's archetype is the
  record's entity) as the claim states it, for every public operation on every registry,
  fails: \<^verbatim>\<open>attach\<close> accepts a handle the registry never issued (\<^verbatim>\<open>get_or_make\<close> creates its
  record), a later \<^verbatim>\<open>make_entity\<close> issues the same handle and leaves its row in the old
  archetype behind, and a \<^verbatim>\<open>detach\<close> of another entity then re-indexes the stale row's
  record. The run below starts from a fresh registry and ends in a registry where I2 does
  not hold.
\<close>

lemma forged_run:
  "(case run dflt0 [MakeEntity [1] [], MakeEntity [2] [], Attach 1 (ent 3) 5,
       MakeEntity [2] [], Detach [1] (ent 1)] (registry_new 0) of
      Inl x \<Rightarrow> False
    | Inr (es, s') \<Rightarrow> m_records s' (ent 3) = Some \<lparr>name = [], arch = Some [2], index = 0\<rparr> \<and>
        map_option m_entities (map_of (m_map s') [2]) = Some [ent 2, ent 3])"
  by (simp add: eval_defs ent_def)



theorem I2_broken_by_forged_handle:
  "(case run dflt0 [MakeEntity [1] [], MakeEntity [2] [], Attach 1 (ent 3) 5,
       MakeEntity [2] [], Detach [1] (ent 1)] (registry_new 0) of
      Inl x \<Rightarrow> False
    | Inr (es, s') \<Rightarrow> \<not> inv_I2 s')"
proof -
  define R where "R = run dflt0 [MakeEntity [1] [], MakeEntity [2] [], Attach 1 (ent 3) 5,
       MakeEntity [2] [], Detach [1] (ent 1)] (registry_new 0)"
  have neg: "\<not> inv_I2 s'"
    if "m_records s' (ent 3) = Some \<lparr>name = [], arch = Some [2], index = 0\<rparr>"
      "map_option m_entities (map_of (m_map s') [2]) = Some [ent 2, ent 3]"
    for s' :: "nat registry"
  proof
    assume "inv_I2 s'"
    then have "\<forall>e r k. m_records s' e = Some r \<longrightarrow> arch r = Some k \<longrightarrow>
        (\<exists>a. map_of (m_map s') k = Some a \<and> index r < length (m_entities a) \<and>
          m_entities a ! index r = e)"
      unfolding inv_I2_def .
    from this [rule_format, OF that(1), of "[2]"]
    obtain a where "map_of (m_map s') [2] = Some a" "m_entities a ! 0 = ent 3"
      by auto
    with that(2) show False by (simp add: ent_def)
  qed
  have "case R of Inl x \<Rightarrow> False
    | Inr (es, s') \<Rightarrow> m_records s' (ent 3) = Some \<lparr>name = [], arch = Some [2], index = 0\<rparr> \<and>
        map_option m_entities (map_of (m_map s') [2]) = Some [ent 2, ent 3]"
    unfolding R_def by (rule forged_run)
  then have "case R of Inl x \<Rightarrow> False | Inr (es, s') \<Rightarrow> \<not> inv_I2 s'"
    using neg by (cases R) auto
  then show ?thesis unfolding R_def .
qed

text \<open>
  C4, amended. On a registry that satisfies the structural invariants (I1, I2, I3 and the
  consistency of the archetype map, \<open>registry_ok\<close>) and whose records all belong to handles the
  counter has issued (\<open>handles_issued\<close>), every public operation that returns preserves I2,
  together with the other invariants, provided \<^verbatim>\<open>attach\<close> is applied to an issued handle,
  \<^verbatim>\<open>make_entity\<close> is given pairwise different types and the 64-bit counter does not wrap.
  The displaced entity's record is re-indexed in the same operation (\<open>take_out\<close>).
\<close>

theorem invariants_preserved:
  assumes "registry_ok s" "handles_issued s" "op_ok s x" "exec dflt x s = Inr (es, s')"
  shows "inv_I2 s' \<and> registry_ok s' \<and> handles_issued s'"
proof -
  have "registry_ok s' \<and> handles_issued s'"
  proof (cases x)
    case (MakeEntity sigs nm)
    with assms(4) obtain e where run: "make_entity dflt sigs nm s = Inr (e, s')"
      by (auto simp: bind_res_def split: sum.splits)
    from assms(3) MakeEntity have d: "distinct sigs" and nw: "m_next_id s + 1 \<noteq> 0" by simp_all
    note fresh = issued_fresh [OF assms(2) nw]
    note c = make_entity_counters [OF run]
    have "registry_ok s'" by (rule wf_make_entity [OF assms(1) d fresh run])
    moreover have "handles_issued s'"
      using c inc_no_wrap [OF nw]
      by (intro handles_issuedI [OF assms(2) make_entity_dom [OF assms(1) d run]])
         (auto simp: counters_def)
    ultimately show ?thesis by simp
  next
    case (Destroy e)
    with assms(4) obtain b where run: "destroy e s = Inr (b, s')"
      by (auto simp: bind_res_def split: sum.splits)
    show ?thesis
      using wf_destroy [OF assms(1) run] destroy_counters [OF run]
        handles_issued_mono [OF assms(2) destroy_dom [OF assms(1) run]]
      by (simp add: counters_def)
  next
    case (Rename e nm)
    with assms(4) have s': "s' = snd (rename e nm s)" by simp
    have "handles_issued s'"
      using assms(2) unfolding s'
      by (intro handles_issued_mono [OF assms(2)]) (auto simp: rename_def split: option.splits if_splits)
    then show ?thesis using wf_rename [OF assms(1), of e nm] s' by simp
  next
    case Clear
    with assms(4) have s': "s' = clear s" by simp
    show ?thesis unfolding s' using wf_clear [of s]
      by (simp add: handles_issued_def clear_def)
  next
    case (Attach g e v)
    with assms(4) obtain v' where run: "attach g e v s = Inr (v', s')"
      by (auto simp: bind_res_def split: sum.splits)
    have pre: "null_id < eid e" "registry_id e = m_id s"
      using run by (auto simp: attach_def split: if_splits)
    note c = attach_counters [OF run]
    have "handles_issued s'"
      using c pre assms(3) Attach
      by (intro handles_issuedI [OF assms(2) attach_dom [OF assms(1) run]])
         (auto simp: counters_def null_id_def)
    then show ?thesis using wf_attach [OF assms(1) run] by simp
  next
    case (Detach gs e)
    with assms(4) obtain b where run: "detach gs e s = Inr (b, s')"
      by (auto simp: bind_res_def split: sum.splits)
    show ?thesis
      using wf_detach [OF assms(1) run] detach_counters [OF run]
        handles_issued_mono [OF assms(2) detach_dom [OF assms(1) run]]
      by (simp add: counters_def)
  qed
  then show ?thesis by (simp add: registry_ok_def)
qed

lemma destroy_example:
  "(case exec dflt0 (Destroy (ent 1)) two_in_one of
      Inl x \<Rightarrow> False
    | Inr (es, s') \<Rightarrow> m_records s' (ent 2) = Some \<lparr>name = ''entity_2'', arch = Some [1], index = 0\<rparr>)"
  by (simp add: eval_defs ent_def two_in_one_def)



theorem invariants_preserved_witness:
  "registry_ok two_in_one \<and> handles_issued two_in_one \<and> op_ok two_in_one (Destroy (ent 1)) \<and>
   (case exec dflt0 (Destroy (ent 1)) two_in_one of
      Inl x \<Rightarrow> False
    | Inr (es, s') \<Rightarrow> inv_I2 s' \<and> registry_ok s' \<and> handles_issued s' \<and>
        m_records s' (ent 2) = Some \<lparr>name = ''entity_2'', arch = Some [1], index = 0\<rparr>)"
proof -
  define R where "R = exec dflt0 (Destroy (ent 1)) two_in_one"
  have ex: "case R of Inl x \<Rightarrow> False
    | Inr (es, s') \<Rightarrow> m_records s' (ent 2) = Some \<lparr>name = ''entity_2'', arch = Some [1], index = 0\<rparr>"
    unfolding R_def by (rule destroy_example)
  have ok: "op_ok two_in_one (Destroy (ent 1))" by simp
  have "inv_I2 s' \<and> registry_ok s' \<and> handles_issued s'" if "R = Inr (es, s')" for es s'
    using invariants_preserved [OF wf_two_in_one handles_issued_two_in_one ok that [unfolded R_def]] .
  then have "case R of Inl x \<Rightarrow> False
    | Inr (es, s') \<Rightarrow> inv_I2 s' \<and> registry_ok s' \<and> handles_issued s' \<and>
        m_records s' (ent 2) = Some \<lparr>name = ''entity_2'', arch = Some [1], index = 0\<rparr>"
    using ex by (cases R) auto
  then show ?thesis
    unfolding R_def using wf_two_in_one handles_issued_two_in_one ok by blast
qed




lemma to_string_nonempty: "to_string n \<noteq> []"
  by (subst to_string.simps) simp











lemma update_map_same:
  "map_of m k = Some a \<Longrightarrow> f (k, a') = f (k, a) \<Longrightarrow> map f (AList.update k a' m) = map f m"
  by (induction m) (auto split: if_splits)

text \<open>
  C3. For an entity (non-null, of this registry) that has a component of type \<open>T\<close> attached
  (\<^verbatim>\<open>find<T>\<close> returns it), \<^verbatim>\<open>attach<T>(e, v2)\<close> returns \<open>v2\<close> and overwrites in place:
  afterwards \<^verbatim>\<open>get<T>(e)\<close> is \<open>v2\<close>, every record (archetype pointer, row and name) is
  unchanged, the keys of the archetype map and the entities of every archetype are
  unchanged (no migration), and the other components of \<open>e\<close> are unchanged.
\<close>

theorem attach_overwrites_in_place:
  assumes "null_id < eid e" "registry_id e = m_id s" "find_component g e s = Inr (Some v0)"
  shows "\<exists>s'. attach g e v2 s = Inr (v2, s') \<and> get g e s' = Inr v2 \<and>
     m_records s' = m_records s \<and>
     map fst (m_map s') = map fst (m_map s) \<and>
     map (\<lambda>(k, a). m_entities a) (m_map s') = map (\<lambda>(k, a). m_entities a) (m_map s) \<and>
     (\<forall>g'. g' \<noteq> g \<longrightarrow> find_component g' e s' = find_component g' e s) \<and>
     m_next_id s' = m_next_id s \<and> m_id s' = m_id s"
proof -
  from assms(3) obtain r k a col where
    r: "m_records s e = Some r" and k: "arch r = Some k" and a: "map_of (m_map s) k = Some a"
    and col: "m_arrays a g = Some col" and i: "index r < length col"
    by (auto simp: find_component_def find_array_def split: option.splits if_splits)
  define a' where "a' = a\<lparr>m_arrays := (m_arrays a)(g \<mapsto> col[index r := v2])\<rparr>"
  define s' where "s' = s\<lparr>m_map := AList.update k a' (m_map s)\<rparr>"
  have run: "attach g e v2 s = Inr (v2, s')"
    unfolding s'_def a'_def by (rule attach_overwrite_eq [OF assms(1,2) r k a col i])
  have f: "find_component g e s' = Inr (Some v2)"
    using r k col i by (simp add: s'_def a'_def find_component_def find_array_def update_conv')
  have g: "get g e s' = Inr v2"
    using assms(1,2) f by (simp add: get_def s'_def)
  have keys: "map fst (m_map s') = map fst (m_map s)"
    unfolding s'_def using update_map_same [OF a, of fst a'] by simp
  have ents: "map (\<lambda>(k, a). m_entities a) (m_map s') = map (\<lambda>(k, a). m_entities a) (m_map s)"
    unfolding s'_def using update_map_same [OF a, of "\<lambda>(k, a). m_entities a" a']
    by (simp add: a'_def)
  have other: "find_component g' e s' = find_component g' e s" if "g' \<noteq> g" for g'
    using r k a that by (simp add: s'_def a'_def find_component_def find_array_def update_conv')
  show ?thesis
    using run g keys ents other by (intro exI [of _ s']) (simp add: s'_def)
qed

theorem attach_overwrites_in_place_witness:
  "null_id < eid (ent 2) \<and> registry_id (ent 2) = m_id two_in_one \<and>
   find_component 1 (ent 2) two_in_one = Inr (Some 20) \<and>
   (\<exists>s'. attach 1 (ent 2) 99 two_in_one = Inr (99, s') \<and> get 1 (ent 2) s' = Inr 99 \<and>
      m_records s' = m_records two_in_one \<and> map fst (m_map s') = [[1]] \<and>
      map (\<lambda>(k, a). m_entities a) (m_map s') = [[ent 1, ent 2]])"
proof -
  have h: "null_id < eid (ent 2)" "registry_id (ent 2) = m_id two_in_one"
    "find_component 1 (ent 2) two_in_one = Inr (Some 20)"
    by (simp_all add: ent_def two_in_one_def null_id_def find_component_def find_array_def)
  have m: "map fst (m_map two_in_one) = [[1]]"
    "map (\<lambda>(k, a). m_entities a) (m_map two_in_one) = [[ent 1, ent 2]]"
    by (simp_all add: two_in_one_def)
  from attach_overwrites_in_place [OF h, of 99] obtain s' where
    "attach 1 (ent 2) 99 two_in_one = Inr (99, s')" "get 1 (ent 2) s' = Inr 99"
    "m_records s' = m_records two_in_one" "map fst (m_map s') = map fst (m_map two_in_one)"
    "map (\<lambda>(k, a). m_entities a) (m_map s') = map (\<lambda>(k, a). m_entities a) (m_map two_in_one)"
    by blast
  then show ?thesis using h m by auto
qed

section \<open>Views\<close>



















section \<open>Detach\<close>

text \<open>\<^verbatim>\<open>do_detach<T>\<close> returns false exactly on its three early returns (another registry's
  entity, no record, no archetype), and then leaves the registry unchanged; it never tests
  whether the archetype has a column for \<open>T\<close>. \<^verbatim>\<open>detach<T...>\<close> stops at the first false.\<close>

lemma not_false_bind:
  "(\<And>y. f y \<noteq> Inr (False, s')) \<Longrightarrow> bind_res r f \<noteq> Inr (False, s')"
  by (cases r) simp_all

lemma do_detach_false_iff:
  "do_detach g e s = Inr (False, s') \<longleftrightarrow>
     s' = s \<and> (registry_id e \<noteq> m_id s \<or> m_records s e = None \<or>
               (\<exists>r. m_records s e = Some r \<and> arch r = None))"
proof (cases "registry_id e \<noteq> m_id s \<or> m_records s e = None \<or>
               (\<exists>r. m_records s e = Some r \<and> arch r = None)")
  case True
  then show ?thesis by (auto simp: do_detach_def)
next
  case False
  then obtain r k where h: "registry_id e = m_id s" "m_records s e = Some r" "arch r = Some k"
    by auto
  have "do_detach g e s \<noteq> Inr (False, s')"
  proof (cases "map_of (m_map s) k")
    case None
    then show ?thesis using h by (simp add: do_detach_def)
  next
    case (Some a)
    show ?thesis
      unfolding do_detach_def
      apply (simp only: h Some option.case simp_thms if_False if_True)
      apply (rule not_false_bind)
      apply (clarsimp split: prod.split option.split)
      apply (intro conjI impI allI not_false_bind)
       apply (simp_all split: prod.split option.split)
      done
  qed
  then show ?thesis using False by simp
qed

lemma detach_short_circuit:
  "detach (g # gs) e s =
     (case do_detach g e s of
        Inl x \<Rightarrow> Inl x
      | Inr (b, s1) \<Rightarrow> if b then detach gs e s1 else Inr (False, s1))"
  by (simp add: bind_res_def split: sum.splits prod.splits)

text \<open>
  C1. The fold of \<^verbatim>\<open>detach<T...>\<close> short-circuits (\<open>detach_short_circuit\<close>), but the per-type
  result is not false when the archetype lacks a column for the type: for an entity whose
  only component has type 2, \<^verbatim>\<open>detach<1>\<close> returns true and drops the component of type 2;
  for an entity with the components 2 and 3, \<^verbatim>\<open>detach<1>\<close> fails the assertion
  \<^verbatim>\<open>id != rec.arch->id()\<close>. The header documents "returns true if T was attached to e".
\<close>

theorem detach_absent_type_drops_other:
  "(case run dflt0 [MakeEntity [] [], Attach 2 (ent 1) 7] (registry_new 0) of
      Inl x \<Rightarrow> False
    | Inr (es, s) \<Rightarrow>
        attached 1 (ent 1) s = Inr False \<and> find_component 2 (ent 1) s = Inr (Some 7) \<and>
        (case detach [1] (ent 1) s of
           Inl x \<Rightarrow> False
         | Inr (b, s') \<Rightarrow> b \<and> find_component 2 (ent 1) s' = Inr None \<and>
             attached 2 (ent 1) s' = Inr False)) \<and>
   (case run dflt0 [MakeEntity [2, 3] []] (registry_new 0) of
      Inl x \<Rightarrow> False
    | Inr (es, s) \<Rightarrow>
        attached 1 (ent 1) s = Inr False \<and> detach [1] (ent 1) s = Inl AssertionFailed)"
  by (simp add: eval_defs ent_def)

text \<open>
  C2. A successful \<^verbatim>\<open>detach<T>\<close> of the only component leaves the entity contained and
  without archetype, but \<^verbatim>\<open>rec = {}\<close> resets the whole record: the name is the empty
  string afterwards, not the name the entity had. Detaching one of two components (the
  other branch of \<^verbatim>\<open>do_detach\<close>) keeps the name.
\<close>

theorem detach_last_component_clears_name:
  "(case run dflt0 [MakeEntity [] ''hero'', Attach 1 (ent 1) 7] (registry_new 0) of
      Inl x \<Rightarrow> False
    | Inr (es, s) \<Rightarrow>
        name_of s (ent 1) = ''hero'' \<and> find_component 1 (ent 1) s = Inr (Some 7) \<and>
        (case detach [1] (ent 1) s of
           Inl x \<Rightarrow> False
         | Inr (b, s') \<Rightarrow> b \<and> contains s' (ent 1) \<and>
             m_records s' (ent 1) = Some record_default \<and> name_of s' (ent 1) = [])) \<and>
   (case run dflt0 [MakeEntity [] ''hero'', Attach 1 (ent 1) 7, Attach 2 (ent 1) 8] (registry_new 0) of
      Inl x \<Rightarrow> False
    | Inr (es, s) \<Rightarrow>
        (case detach [1] (ent 1) s of
           Inl x \<Rightarrow> False
         | Inr (b, s') \<Rightarrow> b \<and> name_of s' (ent 1) = ''hero''))"
  by (simp add: eval_defs ent_def)

end
